theory Spec2Isabelle
  imports Main "HOL-Library.Sublist"
begin

section \<open>LocL: lookup, interpolation and pluralisation of translation resources\<close>

text \<open>
  A shallow embedding of the class \<open>LocL\<close> (the translator engine). Strings are lists of
  8-bit characters standing for the code units of the source strings. Resource objects are
  ordinary data objects (extensible, not frozen) whose leaves are strings. Formatter
  functions and the \<open>Intl\<close> services of the host are parameters and are taken to return
  strings.

  Every ordinary object inherits the members of \<open>Object.prototype\<close>, and a string primitive
  has properties of its own (\<open>length\<close>, its indices, the methods of \<open>String.prototype\<close>).
  Their values are built-in objects of the host. The embedding follows the program up to
  the point where it reads such a member, and ends there with the outcome \<open>HostMember\<close>: it
  says nothing about what the program does with the value.
\<close>

subsection \<open>String primitives of the host language\<close>

definition dq :: string where
  "dq = [CHR 0x22]"

text \<open>\<open>s.split(c)\<close> for a one-character separator: never empty, \<open>"".split(c) = [""]\<close>.\<close>

fun split_on :: "char \<Rightarrow> string \<Rightarrow> string list" where
  "split_on c [] = [[]]"
| "split_on c (x # xs) =
     (if x = c then [] # split_on c xs
      else (case split_on c xs of
              [] \<Rightarrow> [[x]]
            | y # ys \<Rightarrow> (x # y) # ys))"

text \<open>\<open>xs.join(sep)\<close>.\<close>

fun join_with :: "string \<Rightarrow> string list \<Rightarrow> string" where
  "join_with sep [] = []"
| "join_with sep [x] = x"
| "join_with sep (x # y # ys) = x @ sep @ join_with sep (y # ys)"

text \<open>White space as \<open>trim\<close> and the class \<open>\s\<close> see it, within the 8-bit range.\<close>

definition is_space :: "char \<Rightarrow> bool" where
  "is_space c \<longleftrightarrow> c \<in> set [CHR 0x09, CHR 0x0A, CHR 0x0B, CHR 0x0C, CHR 0x0D, CHR 0x20, CHR 0xA0]"

text \<open>The class \<open>\w\<close>: ASCII letters, digits and the underscore.\<close>

definition is_word :: "char \<Rightarrow> bool" where
  "is_word c \<longleftrightarrow>
     (let n = (of_char c :: nat)
      in (48 \<le> n \<and> n \<le> 57) \<or> (65 \<le> n \<and> n \<le> 90) \<or> (97 \<le> n \<and> n \<le> 122) \<or> n = 95)"

definition trim :: "string \<Rightarrow> string" where
  "trim s = rev (dropWhile is_space (rev (dropWhile is_space s)))"

text \<open>\<open>s.slice(a, b)\<close> for \<open>0 \<le> a\<close> and \<open>0 \<le> b\<close>.\<close>

definition slice :: "string \<Rightarrow> nat \<Rightarrow> nat \<Rightarrow> string" where
  "slice s a b = take (b - a) (drop a s)"

text \<open>\<open>s.indexOf(pat)\<close>, with \<open>None\<close> for \<open>-1\<close>.\<close>

fun index_of :: "string \<Rightarrow> string \<Rightarrow> nat option" where
  "index_of pat [] = (if pat = [] then Some 0 else None)"
| "index_of pat (c # cs) =
     (if prefix pat (c # cs) then Some 0 else map_option Suc (index_of pat cs))"

definition str_includes :: "string \<Rightarrow> string \<Rightarrow> bool" where
  "str_includes s pat \<longleftrightarrow> index_of pat s \<noteq> None"

definition ends_with :: "string \<Rightarrow> string \<Rightarrow> bool" where
  "ends_with s suf \<longleftrightarrow> suffix suf s"

text \<open>
  The replacement text of \<open>String.prototype.replace\<close> for a string pattern: \<open>$$\<close>, \<open>$&\<close>,
  \<open>$`\<close> and \<open>$'\<close> are expanded; there are no capture groups, so every other \<open>$\<close> is literal.
\<close>

fun get_substitution :: "string \<Rightarrow> string \<Rightarrow> string \<Rightarrow> string \<Rightarrow> string" where
  "get_substitution matched pre post [] = []"
| "get_substitution matched pre post [c] = [c]"
| "get_substitution matched pre post (c # d # ds) =
     (if c = CHR ''$'' then
        (if d = CHR ''$'' then CHR ''$'' # get_substitution matched pre post ds
         else if d = CHR ''&'' then matched @ get_substitution matched pre post ds
         else if d = CHR 0x60 then pre @ get_substitution matched pre post ds
         else if d = CHR 0x27 then post @ get_substitution matched pre post ds
         else c # get_substitution matched pre post (d # ds))
      else c # get_substitution matched pre post (d # ds))"

text \<open>\<open>s.replace(pat, rep)\<close> with a string pattern: the first occurrence only.\<close>

definition js_replace :: "string \<Rightarrow> string \<Rightarrow> string \<Rightarrow> string" where
  "js_replace s pat rep =
     (case index_of pat s of
        None \<Rightarrow> s
      | Some i \<Rightarrow>
          (let pre = take i s; post = drop (i + length pat) s
           in pre @ get_substitution pat pre post rep @ post))"

subsection \<open>Outcomes and property reads\<close>

text \<open>
  A call returns a value or ends in one of these ways: the two kinds of exception the
  program meets (\<open>TypeError\<close> raised by the host, \<open>Error\<close> thrown by the constructor), or
  the read of the host member of the given name, where the embedding stops.
\<close>

datatype js_error = TypeError | Error string | HostMember string

text \<open>The names of the properties of \<open>Object.prototype\<close>.\<close>

definition object_prototype_names :: "string list" where
  "object_prototype_names =
     [''constructor'', ''__defineGetter__'', ''__defineSetter__'', ''hasOwnProperty'',
      ''__lookupGetter__'', ''__lookupSetter__'', ''isPrototypeOf'', ''propertyIsEnumerable'',
      ''toString'', ''valueOf'', ''__proto__'', ''toLocaleString'']"

definition inherited :: "string \<Rightarrow> bool" where
  "inherited k \<longleftrightarrow> k \<in> set object_prototype_names"

text \<open>
  \<open>obj[k]\<close> on an ordinary object whose own properties are the map \<open>m\<close>: the own property,
  else the inherited member of that name, else \<open>undefined\<close> (\<open>None\<close>).
\<close>

definition js_read :: "(string \<rightharpoonup> 'a) \<Rightarrow> string \<Rightarrow> js_error + 'a option" where
  "js_read m k =
     (case m k of
        Some v \<Rightarrow> Inr (Some v)
      | None \<Rightarrow> if inherited k then Inl (HostMember k) else Inr None)"

definition read_prop :: "(string \<times> 'a) list \<Rightarrow> string \<Rightarrow> js_error + 'a option" where
  "read_prop kvs k = js_read (map_of kvs) k"

subsection \<open>Resource trees and values\<close>

text \<open>
  A translation node is a string leaf or an object, kept as an association list in
  insertion order. \<open>None\<close> of type \<open>node option\<close> stands for \<open>undefined\<close>.
\<close>

datatype node = Str string | Obj "(string \<times> node) list"

text \<open>Values of an interpolation bag and inputs of a formatter.\<close>

datatype ('n, 'd) jsval = Undefined | Node node | Number 'n | DateV 'd

text \<open>
  A bag gives the own properties of the caller's \<open>values\<close> object, \<open>Undefined\<close> where it has
  none; \<open>values[k]\<close> then finds the inherited member.
\<close>

type_synonym ('n, 'd) bag = "string \<Rightarrow> ('n, 'd) jsval"

definition bag_get :: "('n, 'd) bag \<Rightarrow> string \<Rightarrow> js_error + ('n, 'd) jsval" where
  "bag_get vals k =
     (case vals k of
        Undefined \<Rightarrow> if inherited k then Inl (HostMember k) else Inr Undefined
      | v \<Rightarrow> Inr v)"

type_synonym ('n, 'd) formatter = "('n, 'd) jsval \<Rightarrow> string list option \<Rightarrow> string"

text \<open>The services of the host the engine calls: \<open>Intl\<close> and \<open>String(...)\<close> of a number or date.\<close>

record ('n, 'd) host =
  plural_select :: "string \<Rightarrow> ('n, 'd) jsval \<Rightarrow> string"
  number_format :: "string \<Rightarrow> 'n \<Rightarrow> string"
  date_format :: "string \<Rightarrow> 'd \<Rightarrow> string"
  string_of_number :: "'n \<Rightarrow> string"
  string_of_date :: "'d \<Rightarrow> string"

text \<open>\<open>String(v)\<close>; on an object it calls the inherited \<open>toString\<close>.\<close>

fun to_string :: "('n, 'd) host \<Rightarrow> ('n, 'd) jsval \<Rightarrow> js_error + string" where
  "to_string h Undefined = Inr ''undefined''"
| "to_string h (Node (Str s)) = Inr s"
| "to_string h (Node (Obj kvs)) = Inl (HostMember ''toString'')"
| "to_string h (Number n) = Inr (string_of_number h n)"
| "to_string h (DateV d) = Inr (string_of_date h d)"

subsection \<open>The token scan of \<open>interpolate\<close>\<close>

record token =
  raw :: string
  inner :: string

record scan_state =
  depth :: int
  start :: int
  tokens :: "token list"

definition mk_token :: "string \<Rightarrow> token" where
  "mk_token r = \<lparr>raw = r, inner = trim (butlast (tl r))\<rparr>"

text \<open>One iteration of the scanning loop, at index \<open>i\<close> with \<open>c = result[i]\<close>.\<close>

definition scan_char :: "string \<Rightarrow> nat \<Rightarrow> char \<Rightarrow> scan_state \<Rightarrow> scan_state" where
  "scan_char res i c st =
     (if c = CHR ''{'' then
        st\<lparr>start := (if depth st = 0 then int i else start st), depth := depth st + 1\<rparr>
      else if c = CHR ''}'' then
        (let d = depth st - 1
         in if d = 0 \<and> start st \<ge> 0
            then st\<lparr>depth := d,
                    tokens := tokens st @ [mk_token (slice res (nat (start st)) (i + 1))],
                    start := - 1\<rparr>
            else st\<lparr>depth := d\<rparr>)
      else st)"

fun scan_from :: "string \<Rightarrow> nat \<Rightarrow> string \<Rightarrow> scan_state \<Rightarrow> scan_state" where
  "scan_from res i [] st = st"
| "scan_from res i (c # cs) st = scan_from res (Suc i) cs (scan_char res i c st)"

definition scan_init :: scan_state where
  "scan_init = \<lparr>depth = 0, start = - 1, tokens = []\<rparr>"

text \<open>The state of the scan after its first \<open>n\<close> iterations over \<open>res\<close>.\<close>

definition scan_prefix :: "string \<Rightarrow> nat \<Rightarrow> scan_state" where
  "scan_prefix res n = scan_from res 0 (take n res) scan_init"

definition find_tokens :: "string \<Rightarrow> token list" where
  "find_tokens res = tokens (scan_prefix res (length res))"

subsection \<open>Select expressions\<close>

text \<open>
  One attempt of the pattern \<open>(\w+)\s*\{([^}]*)\}\<close> at the start of \<open>s\<close>: the case key, the
  case text and what follows the match. The three classes and the brace are disjoint, so
  the greedy match is the only candidate at a position.
\<close>

definition match_case_at :: "string \<Rightarrow> (string \<times> string \<times> string) option" where
  "match_case_at s =
     (let w = takeWhile is_word s
      in if w = [] then None
         else (case dropWhile is_space (dropWhile is_word s) of
                 [] \<Rightarrow> None
               | b # r \<Rightarrow>
                   if b \<noteq> CHR ''{'' then None
                   else (case dropWhile (\<lambda>c. c \<noteq> CHR ''}'') r of
                           [] \<Rightarrow> None
                         | e # r' \<Rightarrow> Some (w, takeWhile (\<lambda>c. c \<noteq> CHR ''}'') r, r'))))"

text \<open>\<open>caseRegex.exec\<close>: the leftmost match at or after the current position.\<close>

fun regex_exec :: "string \<Rightarrow> (string \<times> string \<times> string) option" where
  "regex_exec [] = None"
| "regex_exec (c # cs) =
     (case match_case_at (c # cs) of
        Some m \<Rightarrow> Some m
      | None \<Rightarrow> regex_exec cs)"

lemma match_case_at_shorter:
  "match_case_at s = Some (k, txt, r) \<Longrightarrow> length r < length s"
proof -
  assume m: "match_case_at s = Some (k, txt, r)"
  have le: "\<And>P (xs :: string). length (dropWhile P xs) \<le> length xs"
    by (simp add: length_dropWhile_le)
  from m obtain b r1 e where
    r1: "dropWhile is_space (dropWhile is_word s) = b # r1" and
    r: "dropWhile (\<lambda>c. c \<noteq> CHR ''}'') r1 = e # r"
    by (auto simp: match_case_at_def Let_def split: if_splits list.splits)
  have "length (e # r) \<le> length r1" using le [of "\<lambda>c. c \<noteq> CHR ''}''" r1] r by simp
  moreover have "length (b # r1) \<le> length (dropWhile is_word s)"
    using le [of is_space "dropWhile is_word s"] r1 by simp
  moreover have "length (dropWhile is_word s) \<le> length s" by (rule le)
  ultimately show ?thesis by simp
qed

lemma regex_exec_shorter:
  "regex_exec s = Some (k, txt, r) \<Longrightarrow> length r < length s"
proof (induction s)
  case Nil
  then show ?case by simp
next
  case (Cons c cs)
  show ?case
  proof (cases "match_case_at (c # cs)")
    case None
    with Cons show ?thesis by fastforce
  next
    case (Some m)
    with Cons.prems have "match_case_at (c # cs) = Some (k, txt, r)" by simp
    then show ?thesis by (rule match_case_at_shorter)
  qed
qed

text \<open>
  The \<open>while\<close> loop that fills \<open>caseMap\<close>, an object created as \<open>{}\<close>. A later case of the
  same name overwrites. The assignment \<open>caseMap["__proto__"] = text\<close> reaches the inherited
  setter, which ignores a string, so no case of that name is stored.
\<close>

definition case_store :: "string \<Rightarrow> string \<Rightarrow> (string \<rightharpoonup> string) \<Rightarrow> (string \<rightharpoonup> string)" where
  "case_store k v m = (if k = ''__proto__'' then m else m(k \<mapsto> v))"

function case_loop :: "string \<Rightarrow> (string \<rightharpoonup> string) \<Rightarrow> (string \<rightharpoonup> string)" where
  "case_loop s m =
     (case regex_exec s of
        None \<Rightarrow> m
      | Some (k, txt, r) \<Rightarrow> case_loop r (case_store k (trim txt) m))"
  by pat_completeness auto
termination
  by (relation "measure (\<lambda>(s, m). length s)") (auto dest: regex_exec_shorter)

declare case_loop.simps [simp del]

text \<open>\<open>caseMap[value] ?? caseMap.other ?? ""\<close>.\<close>

definition select_text :: "(string \<rightharpoonup> string) \<Rightarrow> string \<Rightarrow> js_error + string" where
  "select_text caseMap v =
     (case js_read caseMap v of
        Inl e \<Rightarrow> Inl e
      | Inr (Some txt) \<Rightarrow> Inr txt
      | Inr None \<Rightarrow> (case caseMap ''other'' of Some txt \<Rightarrow> Inr txt | None \<Rightarrow> Inr []))"

text \<open>The replacement of a token whose inner text contains \<open>select\<close>.\<close>

definition select_replacement ::
  "('n, 'd) host \<Rightarrow> ('n, 'd) bag \<Rightarrow> string \<Rightarrow> js_error + string"
where
  "select_replacement h vals inr =
     (case map trim (split_on CHR '','' inr) of
        field # type # rest \<Rightarrow>
          if type = ''select'' then
            (case bag_get vals field of
               Inl e \<Rightarrow> Inl e
             | Inr x \<Rightarrow>
                 (case to_string h (case x of Undefined \<Rightarrow> Node (Str ''other'') | _ \<Rightarrow> x) of
                    Inl e \<Rightarrow> Inl e
                  | Inr v \<Rightarrow> select_text (case_loop (join_with '' '' rest) Map.empty) v))
          else Inr []
      | _ \<Rightarrow> Inr [])"

subsection \<open>Plain and formatted tokens\<close>

definition plain_replacement ::
  "('n, 'd) host \<Rightarrow> (string \<rightharpoonup> ('n, 'd) formatter) \<Rightarrow> string \<Rightarrow> ('n, 'd) bag \<Rightarrow> token \<Rightarrow>
   js_error + string"
where
  "plain_replacement h fmts lang vals tok =
     (let parts = map trim (split_on CHR ''|'' (inner tok));
          fieldName = (case parts of [] \<Rightarrow> [] | f # _ \<Rightarrow> f);
          formatterAndArgs = (case parts of _ # fa # _ \<Rightarrow> Some fa | _ \<Rightarrow> None);
          fparts = (case formatterAndArgs of
                      None \<Rightarrow> []
                    | Some fa \<Rightarrow> if fa = [] then [] else split_on CHR '':'' fa);
          formatterName = (case fparts of [] \<Rightarrow> None | f # _ \<Rightarrow> Some f);
          argsStr = (case fparts of _ # a # _ \<Rightarrow> Some a | _ \<Rightarrow> None);
          args = (case argsStr of
                    None \<Rightarrow> []
                  | Some a \<Rightarrow> if a = [] then [] else split_on CHR '','' a)
      in (case bag_get vals fieldName of
            Inl e \<Rightarrow> Inl e
          | Inr val \<Rightarrow>
              (case (case formatterName of
                       None \<Rightarrow> Inr None
                     | Some f \<Rightarrow> if f = [] then Inr None else js_read fmts f) of
                 Inl e \<Rightarrow> Inl e
               | Inr (Some fn) \<Rightarrow> Inr (fn val (Some args))
               | Inr None \<Rightarrow>
                   (case val of
                      DateV d \<Rightarrow> Inr (date_format h lang d)
                    | Number n \<Rightarrow> Inr (number_format h lang n)
                    | Undefined \<Rightarrow> Inr (raw tok)
                    | Node v \<Rightarrow> to_string h (Node v)))))"

subsection \<open>\<open>interpolate\<close>\<close>

definition token_replacement ::
  "('n, 'd) host \<Rightarrow> (string \<rightharpoonup> ('n, 'd) formatter) \<Rightarrow> string \<Rightarrow> ('n, 'd) bag \<Rightarrow> token \<Rightarrow>
   js_error + string"
where
  "token_replacement h fmts lang vals tok =
     (if str_includes (inner tok) ''select'' then select_replacement h vals (inner tok)
      else plain_replacement h fmts lang vals tok)"

text \<open>The body of the substitution loop for one token.\<close>

definition subst_token ::
  "('n, 'd) host \<Rightarrow> (string \<rightharpoonup> ('n, 'd) formatter) \<Rightarrow> string \<Rightarrow> ('n, 'd) bag \<Rightarrow>
   string \<Rightarrow> token \<Rightarrow> js_error + string"
where
  "subst_token h fmts lang vals output tok =
     (case token_replacement h fmts lang vals tok of
        Inl e \<Rightarrow> Inl e
      | Inr replacement \<Rightarrow> Inr (js_replace output (raw tok) replacement))"

text \<open>The substitution loop: each token works on the output the tokens before it left.\<close>

fun subst_tokens ::
  "('n, 'd) host \<Rightarrow> (string \<rightharpoonup> ('n, 'd) formatter) \<Rightarrow> string \<Rightarrow> ('n, 'd) bag \<Rightarrow>
   token list \<Rightarrow> string \<Rightarrow> js_error + string"
where
  "subst_tokens h fmts lang vals [] output = Inr output"
| "subst_tokens h fmts lang vals (tok # toks) output =
     (case subst_token h fmts lang vals output tok of
        Inl e \<Rightarrow> Inl e
      | Inr output' \<Rightarrow> subst_tokens h fmts lang vals toks output')"

definition interpolate ::
  "('n, 'd) host \<Rightarrow> (string \<rightharpoonup> ('n, 'd) formatter) \<Rightarrow> string \<Rightarrow>
   node option \<Rightarrow> ('n, 'd) bag option \<Rightarrow> js_error + node option"
where
  "interpolate h fmts lang result values =
     (case values of
        None \<Rightarrow> Inr result
      | Some vals \<Rightarrow>
          (case result of
             Some (Str s) \<Rightarrow>
               (case subst_tokens h fmts lang vals (find_tokens s) s of
                  Inl e \<Rightarrow> Inl e
                | Inr output \<Rightarrow> Inr (Some (Str output)))
           | _ \<Rightarrow> Inr result))"


subsection \<open>The translator and its configuration\<close>

text \<open>
  The scope of a translator: absent, one dotted path, or a sequence of dotted paths.
\<close>

datatype scope = NoScope | Single string | Multi "string list"

text \<open>
  An optional switch of the configuration object: the property is not there, it is there
  with the value \<open>undefined\<close>, or it holds a boolean. The constructor spreads the
  configuration over the defaults, so only a property that is not there takes the default.
\<close>

datatype flag = Unset | Undef | Flag bool

definition or_default :: "bool \<Rightarrow> flag \<Rightarrow> flag" where
  "or_default d f = (case f of Unset \<Rightarrow> Flag d | _ \<Rightarrow> f)"

record ('n, 'd) locl_config =
  cfg_resources :: "(string \<times> node) list option"
  cfg_language :: "string option"
  cfg_fallbackLanguage :: string
  cfg_scope :: scope
  cfg_formatters :: "(string \<rightharpoonup> ('n, 'd) formatter) option"
  cfg_useDefaultFormatters :: flag
  cfg_devMode :: flag
  cfg_useCache :: flag

text \<open>
  The fields of an instance. \<open>plural_lang\<close> is the language \<open>pluralRules\<close> was built for,
  \<open>warnings\<close> is what \<open>console.warn\<close> has printed, \<open>ident\<close> is the identity of the object.
  The constructor wraps the resources with \<open>makeReadOnly\<close>; the wrapper changes no value
  that is read from them, so the lookups below read the resources themselves. Identity
  and mutation are the subject of the store model further down.
\<close>

record ('n, 'd) locl =
  ident :: nat
  config :: "('n, 'd) locl_config"
  language :: string
  fallbackLanguage :: string
  scope :: scope
  plural_lang :: string
  formatters :: "string \<rightharpoonup> ('n, 'd) formatter"
  cache :: "string \<rightharpoonup> node option"
  warnings :: "string list"

definition resources :: "('n, 'd) locl \<Rightarrow> (string \<times> node) list" where
  "resources self = (case cfg_resources (config self) of None \<Rightarrow> [] | Some r \<Rightarrow> r)"

definition devMode :: "('n, 'd) locl \<Rightarrow> bool" where
  "devMode self \<longleftrightarrow> cfg_devMode (config self) = Flag True"

definition useCache :: "('n, 'd) locl \<Rightarrow> bool" where
  "useCache self \<longleftrightarrow> cfg_useCache (config self) = Flag True"

definition warn :: "string \<Rightarrow> ('n, 'd) locl \<Rightarrow> ('n, 'd) locl" where
  "warn msg self = self\<lparr>warnings := warnings self @ [msg]\<rparr>"

text \<open>\<open>c && this.config.devMode && console.warn(msg)\<close>.\<close>

definition warn_if :: "bool \<Rightarrow> string \<Rightarrow> ('n, 'd) locl \<Rightarrow> ('n, 'd) locl" where
  "warn_if c msg self = (if c \<and> devMode self then warn msg self else self)"

text \<open>\<open>isLanguage\<close>, reading the resources of the configuration under construction.\<close>

definition isLanguage :: "(string \<times> node) list \<Rightarrow> string option \<Rightarrow> string option" where
  "isLanguage res v =
     (case v of
        None \<Rightarrow> None
      | Some x \<Rightarrow>
          if x = [] then None
          else (let l = take 2 x in if l \<in> set (map fst res) then Some l else None))"

text \<open>
  The constructor. \<open>defaults\<close> is the registry of built-in formatters; \<open>i\<close> is the identity
  the new object receives.
\<close>

definition new_locl ::
  "(string \<rightharpoonup> ('n, 'd) formatter) \<Rightarrow> ('n, 'd) locl_config \<Rightarrow> nat \<Rightarrow> js_error + ('n, 'd) locl"
where
  "new_locl defaults cfg i =
     (case cfg_resources cfg of
        None \<Rightarrow> Inl (Error ''[LocL] `resources` is required'')
      | Some res \<Rightarrow>
          if cfg_fallbackLanguage cfg = [] then Inl (Error ''[LocL] `fallbackLanguage` is required'')
          else
            (let cfg' = cfg\<lparr>
                   cfg_useDefaultFormatters := or_default True (cfg_useDefaultFormatters cfg),
                   cfg_devMode := or_default False (cfg_devMode cfg),
                   cfg_useCache := or_default True (cfg_useCache cfg)\<rparr>;
                 lang = (case isLanguage res (cfg_language cfg) of
                           None \<Rightarrow> cfg_fallbackLanguage cfg
                         | Some l \<Rightarrow> l);
                 user = (case cfg_formatters cfg of None \<Rightarrow> Map.empty | Some f \<Rightarrow> f)
             in Inr \<lparr>ident = i,
                     config = cfg',
                     language = lang,
                     fallbackLanguage = cfg_fallbackLanguage cfg,
                     scope = cfg_scope cfg,
                     plural_lang = lang,
                     formatters =
                       (if cfg_useDefaultFormatters cfg' = Flag True then defaults ++ user else user),
                     cache = Map.empty,
                     warnings = []\<rparr>))"

definition changeLanguage :: "('n, 'd) locl \<Rightarrow> string \<Rightarrow> ('n, 'd) locl" where
  "changeLanguage self lang =
     (if lang \<in> set (map fst (resources self))
      then self\<lparr>language := lang, plural_lang := lang\<rparr>
      else self)"

subsection \<open>\<open>buildTranslationObject\<close>\<close>

text \<open>
  One step of \<open>path.reduce((acc, k) => acc?.[k], langObject)\<close>: nothing below \<open>undefined\<close>,
  a property read on an object, and on a string primitive a property of the host.
\<close>

definition walk_step :: "js_error + node option \<Rightarrow> string \<Rightarrow> js_error + node option" where
  "walk_step acc k =
     (case acc of
        Inl e \<Rightarrow> Inl e
      | Inr None \<Rightarrow> Inr None
      | Inr (Some (Str s)) \<Rightarrow> Inl (HostMember k)
      | Inr (Some (Obj kvs)) \<Rightarrow> read_prop kvs k)"

definition walk :: "string list \<Rightarrow> node option \<Rightarrow> js_error + node option" where
  "walk ks root = foldl walk_step (Inr root) ks"

definition truthy :: "node option \<Rightarrow> bool" where
  "truthy v \<longleftrightarrow> (case v of None \<Rightarrow> False | Some (Str s) \<Rightarrow> s \<noteq> [] | Some (Obj kvs) \<Rightarrow> True)"

text \<open>
  The synthetic tree while it is built: a container created by the loop is an ordinary
  mutable object; a value taken from the resources is grafted as it is, and when it is an
  object it is a read-only view, whose \<open>set\<close> trap answers \<open>false\<close>. The class body is
  strict code, so an assignment refused by the trap, or made on a string, raises
  \<open>TypeError\<close>.
\<close>

datatype snode = Grafted node | Fresh "(string \<times> snode) list"

text \<open>\<open>obj[k] = v\<close> on an ordinary object: in place when the key exists, appended otherwise.\<close>

fun set_prop :: "string \<Rightarrow> 'a \<Rightarrow> (string \<times> 'a) list \<Rightarrow> (string \<times> 'a) list" where
  "set_prop k v [] = [(k, v)]"
| "set_prop k v ((k', v') # kvs) =
     (if k = k' then (k, v) # kvs else (k', v') # set_prop k v kvs)"

text \<open>
  The inner \<open>reduce\<close> that grafts \<open>val\<close> at the path. The last segment is assigned
  (\<open>acc[k] = val\<close>); the name \<open>__proto__\<close> reaches the inherited setter instead of creating a
  property. A segment before the last is entered (\<open>acc[k] ??= {}\<close>): an own property is
  kept, an inherited member is not nullish and is entered as it is, and only an absent
  name gets a new container.
\<close>

fun graft :: "string list \<Rightarrow> node \<Rightarrow> snode \<Rightarrow> js_error + snode" where
  "graft [] val acc = Inr acc"
| "graft [k] val (Fresh kvs) =
     (if k = ''__proto__'' then Inl (HostMember k)
      else Inr (Fresh (set_prop k (Grafted val) kvs)))"
| "graft [k] val (Grafted (Obj kvs)) = Inl TypeError"
| "graft [k] val (Grafted (Str s)) =
     (if k = ''__proto__'' then Inl (HostMember k) else Inl TypeError)"
| "graft (k # k' # ks) val (Fresh kvs) =
     (case map_of kvs k of
        Some c \<Rightarrow>
          (case graft (k' # ks) val c of
             Inl e \<Rightarrow> Inl e
           | Inr c' \<Rightarrow> Inr (Fresh (set_prop k c' kvs)))
      | None \<Rightarrow>
          if inherited k then Inl (HostMember k)
          else (case graft (k' # ks) val (Fresh []) of
                  Inl e \<Rightarrow> Inl e
                | Inr c' \<Rightarrow> Inr (Fresh (set_prop k c' kvs))))"
| "graft (k # k' # ks) val (Grafted (Str s)) = Inl (HostMember k)"
| "graft (k # k' # ks) val (Grafted (Obj kvs)) =
     (case read_prop kvs k of
        Inl e \<Rightarrow> Inl e
      | Inr None \<Rightarrow> Inl TypeError
      | Inr (Some c) \<Rightarrow>
          (case graft (k' # ks) val (Grafted c) of
             Inl e \<Rightarrow> Inl e
           | Inr c' \<Rightarrow> Inr (Grafted (Obj kvs))))"

text \<open>The \<open>for\<close> loop over the paths of a sequence scope.\<close>

fun combine :: "string list \<Rightarrow> node option \<Rightarrow> snode \<Rightarrow> js_error + snode" where
  "combine [] langObject combined = Inr combined"
| "combine (md # mds) langObject combined =
     (case walk (split_on CHR ''.'' md) langObject of
        Inl e \<Rightarrow> Inl e
      | Inr val \<Rightarrow>
          if truthy val then
            (case val of
               None \<Rightarrow> combine mds langObject combined
             | Some v \<Rightarrow>
                 (case graft (split_on CHR ''.'' md) v combined of
                    Inl e \<Rightarrow> Inl e
                  | Inr c \<Rightarrow> combine mds langObject c))
          else combine mds langObject combined)"

text \<open>The synthetic tree as the lookups read it.\<close>

fun to_node :: "snode \<Rightarrow> node" where
  "to_node (Grafted v) = v"
| "to_node (Fresh kvs) = Obj (map (\<lambda>(k, c). (k, to_node c)) kvs)"

definition missing_namespace_msg :: "string \<Rightarrow> string \<Rightarrow> string" where
  "missing_namespace_msg sc lang =
     ''[LocL] Missing namespace: '' @ dq @ sc @ dq @ '' in '' @ dq @ lang @ dq"

definition getCacheKey :: "('n, 'd) locl \<Rightarrow> string \<Rightarrow> string" where
  "getCacheKey self lang =
     lang @ ''::'' @
       (case scope self of
          Multi ms \<Rightarrow> join_with ''|'' ms
        | Single s \<Rightarrow> s
        | NoScope \<Rightarrow> ''*'')"

definition cache_set :: "string \<Rightarrow> node option \<Rightarrow> ('n, 'd) locl \<Rightarrow> ('n, 'd) locl" where
  "cache_set k v self = (if useCache self then self\<lparr>cache := (cache self)(k \<mapsto> v)\<rparr> else self)"

text \<open>
  A scope is one of the three forms of the type \<open>ScopeType\<close>, so the last branch of the
  source (a scope that is neither a string nor an array) has no input here.
\<close>

definition buildTranslationObject ::
  "('n, 'd) locl \<Rightarrow> string \<Rightarrow> (js_error + node option) \<times> ('n, 'd) locl"
where
  "buildTranslationObject self lang =
     (case read_prop (resources self) lang of
        Inl e \<Rightarrow> (Inl e, self)
      | Inr langObject \<Rightarrow>
          if scope self = NoScope \<or> scope self = Single [] then (Inr langObject, self)
          else
            (let cacheKey = getCacheKey self lang
             in (case (if useCache self then cache self cacheKey else None) of
                   Some hit \<Rightarrow> (Inr hit, self)
                 | None \<Rightarrow>
                     (case scope self of
                        Single s \<Rightarrow>
                          (case walk (split_on CHR ''.'' s) langObject of
                             Inl e \<Rightarrow> (Inl e, self)
                           | Inr result \<Rightarrow>
                               (let self1 = cache_set cacheKey result self;
                                    self2 = warn_if (result = None)
                                              (missing_namespace_msg s (language self1)) self1
                                in (Inr result, self2)))
                      | Multi ms \<Rightarrow>
                          (case combine ms langObject (Fresh []) of
                             Inl e \<Rightarrow> (Inl e, self)
                           | Inr combined \<Rightarrow>
                               (let roCombined = Some (to_node combined)
                                in (Inr roCombined, cache_set cacheKey roCombined self)))
                      | NoScope \<Rightarrow> (Inr langObject, self)))))"

subsection \<open>Lookup with fallback\<close>

text \<open>
  The loop of \<open>findTranslation\<close>. \<open>current.hasOwnProperty(keyTest)\<close> calls what the property
  \<open>hasOwnProperty\<close> of the current object holds: the inherited function, unless the object
  has a key of that name, whose value is no function. \<open>key in current\<close> also finds the
  inherited members.
\<close>

fun find_loop :: "string list \<Rightarrow> node \<Rightarrow> js_error + node option" where
  "find_loop [] cur = Inr (Some cur)"
| "find_loop (k # ks) (Str s) = Inr None"
| "find_loop (k # ks) (Obj kvs) =
     (if map_of kvs ''hasOwnProperty'' \<noteq> None then Inl TypeError
      else (case map_of kvs (join_with ''.'' (k # ks)) of
              Some v \<Rightarrow> Inr (Some v)
            | None \<Rightarrow>
                (case read_prop kvs k of
                   Inl e \<Rightarrow> Inl e
                 | Inr None \<Rightarrow> Inr None
                 | Inr (Some v) \<Rightarrow> find_loop ks v)))"

definition findTranslation :: "string list \<Rightarrow> node option \<Rightarrow> js_error + node option" where
  "findTranslation keys translationObject =
     (case translationObject of
        Some (Obj kvs) \<Rightarrow> find_loop keys (Obj kvs)
      | _ \<Rightarrow> Inr None)"

definition missing_key_msg :: "string \<Rightarrow> string \<Rightarrow> string" where
  "missing_key_msg key lang =
     ''[LocL] Missing key: '' @ dq @ key @ dq @ '' in '' @ dq @ lang @ dq"

text \<open>\<open>base\<close> is the optional second argument; \<open>None\<close> makes the function build the tree.\<close>

definition lookupWithFallback ::
  "('n, 'd) locl \<Rightarrow> string \<Rightarrow> node option \<Rightarrow> (js_error + node option) \<times> ('n, 'd) locl"
where
  "lookupWithFallback self key base =
     (let keys = split_on CHR ''.'' key
      in (case (case base of
                  Some b \<Rightarrow> (Inr (Some b), self)
                | None \<Rightarrow> buildTranslationObject self (language self)) of
            (Inl e, self1) \<Rightarrow> (Inl e, self1)
          | (Inr tree, self1) \<Rightarrow>
              (case findTranslation keys tree of
                 Inl e \<Rightarrow> (Inl e, self1)
               | Inr result \<Rightarrow>
                   (let self2 = warn_if (result = None) (missing_key_msg key (language self1)) self1
                    in (case result of
                          Some v \<Rightarrow> (Inr (Some v), self2)
                        | None \<Rightarrow>
                            (case buildTranslationObject self2 (fallbackLanguage self2) of
                               (Inl e, self3) \<Rightarrow> (Inl e, self3)
                             | (Inr fbBase, self3) \<Rightarrow>
                                 (case findTranslation keys fbBase of
                                    Inl e \<Rightarrow> (Inl e, self3)
                                  | Inr result' \<Rightarrow>
                                      (Inr result',
                                       warn_if (result' = None)
                                         (missing_key_msg key (fallbackLanguage self3)) self3))))))))"

subsection \<open>The public operations\<close>

definition get ::
  "('n, 'd) locl \<Rightarrow> string option \<Rightarrow> (js_error + node option) \<times> ('n, 'd) locl"
where
  "get self key =
     (case buildTranslationObject self (language self) of
        (Inl e, self1) \<Rightarrow> (Inl e, self1)
      | (Inr base, self1) \<Rightarrow>
          (case key of
             None \<Rightarrow> (Inr base, self1)
           | Some k \<Rightarrow> if k = [] then (Inr base, self1) else lookupWithFallback self1 k base))"

definition getObj ::
  "('n, 'd) locl \<Rightarrow> string \<Rightarrow> (js_error + node option) \<times> ('n, 'd) locl"
where
  "getObj self key = get self (Some key)"

text \<open>The test \<open>key.match(/_(one|few|many|other)$/)\<close>.\<close>

definition plural_suffixed :: "string \<Rightarrow> bool" where
  "plural_suffixed key \<longleftrightarrow>
     ends_with key ''_one'' \<or> ends_with key ''_few'' \<or> ends_with key ''_many'' \<or>
     ends_with key ''_other''"

definition interp ::
  "('n, 'd) host \<Rightarrow> ('n, 'd) locl \<Rightarrow> node option \<Rightarrow> ('n, 'd) bag option \<Rightarrow> js_error + node option"
where
  "interp h self result values = interpolate h (formatters self) (language self) result values"

definition checkPlural ::
  "('n, 'd) host \<Rightarrow> ('n, 'd) locl \<Rightarrow> string \<Rightarrow> ('n, 'd) bag option \<Rightarrow>
   (js_error + node option) \<times> ('n, 'd) locl"
where
  "checkPlural h self key values =
     (case values of
        None \<Rightarrow> (Inr None, self)
      | Some vals \<Rightarrow>
          if vals ''count'' \<noteq> Undefined \<and> \<not> plural_suffixed key then
            (let category = plural_select h (plural_lang self) (vals ''count'');
                 pluralKey = key @ ''_'' @ category
             in (case lookupWithFallback self pluralKey None of
                   (Inl e, self1) \<Rightarrow> (Inl e, self1)
                 | (Inr pluralResult, self1) \<Rightarrow> (interp h self1 pluralResult values, self1)))
          else (Inr None, self))"

definition missing_formatter_msg :: "string \<Rightarrow> string" where
  "missing_formatter_msg formatter = ''[LocL] Formatter '' @ dq @ formatter @ dq @ '' not found.''"

definition applyFormat ::
  "('n, 'd) locl \<Rightarrow> node \<Rightarrow> string \<Rightarrow> string list option \<Rightarrow> (js_error + node) \<times> ('n, 'd) locl"
where
  "applyFormat self v formatter args =
     (case js_read (formatters self) formatter of
        Inl e \<Rightarrow> (Inl e, self)
      | Inr None \<Rightarrow> (Inr v, warn_if True (missing_formatter_msg formatter) self)
      | Inr (Some formatterFn) \<Rightarrow> (Inr (Str (formatterFn (Node v) args)), self))"

definition format ::
  "('n, 'd) locl \<Rightarrow> string \<Rightarrow> string \<Rightarrow> string list option \<Rightarrow> (js_error + node) \<times> ('n, 'd) locl"
where
  "format self v formatter args = applyFormat self (Str v) formatter args"

text \<open>
  The common tail of \<open>t\<close> and \<open>plural\<close>: \<open>interpolate(result, values) ?? key\<close>, then the
  optional explicit formatter.
\<close>

definition finish ::
  "('n, 'd) locl \<Rightarrow> string \<Rightarrow> js_error + node option \<Rightarrow> (string \<times> string list option) option \<Rightarrow>
   (js_error + node) \<times> ('n, 'd) locl"
where
  "finish self key interpolation fmt =
     (case interpolation of
        Inl e \<Rightarrow> (Inl e, self)
      | Inr r \<Rightarrow>
          (let interpolated = (case r of None \<Rightarrow> Str key | Some v \<Rightarrow> v)
           in (case fmt of
                 None \<Rightarrow> (Inr interpolated, self)
               | Some (formatter, args) \<Rightarrow>
                   if formatter = [] then (Inr interpolated, self)
                   else applyFormat self interpolated formatter args)))"

definition t ::
  "('n, 'd) host \<Rightarrow> ('n, 'd) locl \<Rightarrow> string option \<Rightarrow> ('n, 'd) bag option \<Rightarrow>
   (string \<times> string list option) option \<Rightarrow> (js_error + node option) \<times> ('n, 'd) locl"
where
  "t h self key values fmt =
     (case (case key of None \<Rightarrow> [] | Some k \<Rightarrow> k) of
        [] \<Rightarrow> get self None
      | c # cs \<Rightarrow>
          (let k = c # cs
           in (case checkPlural h self k values of
                 (Inl e, self1) \<Rightarrow> (Inl e, self1)
               | (Inr (Some pluralCheckResult), self1) \<Rightarrow> (Inr (Some pluralCheckResult), self1)
               | (Inr None, self1) \<Rightarrow>
                   (case lookupWithFallback self1 k None of
                      (Inl e, self2) \<Rightarrow> (Inl e, self2)
                    | (Inr result, self2) \<Rightarrow>
                        (case finish self2 k (interp h self2 result values) fmt of
                           (Inl e, self3) \<Rightarrow> (Inl e, self3)
                         | (Inr r, self3) \<Rightarrow> (Inr (Some r), self3))))))"

definition tt ::
  "('n, 'd) host \<Rightarrow> ('n, 'd) locl \<Rightarrow> string option \<Rightarrow> ('n, 'd) bag option \<Rightarrow>
   (string \<times> string list option) option \<Rightarrow> (js_error + node option) \<times> ('n, 'd) locl"
where
  "tt h self key values fmt = t h self key values fmt"

definition missing_plural_msg :: "string \<Rightarrow> string \<Rightarrow> string" where
  "missing_plural_msg key lang =
     ''[LocL] Missing plural: '' @ dq @ key @ dq @ '' in '' @ dq @ lang @ dq"

text \<open>\<open>a ?? b\<close> for two lookups: the second runs only when the first found nothing.\<close>

definition or_else ::
  "(js_error + node option) \<times> ('n, 'd) locl \<Rightarrow>
   (('n, 'd) locl \<Rightarrow> (js_error + node option) \<times> ('n, 'd) locl) \<Rightarrow>
   (js_error + node option) \<times> ('n, 'd) locl"
where
  "or_else a b =
     (case a of
        (Inl e, self1) \<Rightarrow> (Inl e, self1)
      | (Inr (Some v), self1) \<Rightarrow> (Inr (Some v), self1)
      | (Inr None, self1) \<Rightarrow> b self1)"

definition plural ::
  "('n, 'd) host \<Rightarrow> ('n, 'd) locl \<Rightarrow> string \<Rightarrow> ('n, 'd) bag \<Rightarrow>
   (string \<times> string list option) option \<Rightarrow> (js_error + node) \<times> ('n, 'd) locl"
where
  "plural h self key vals fmt =
     (let category = plural_select h (plural_lang self) (vals ''count'');
          baseKey = key
      in (case lookupWithFallback self baseKey None of
            (Inl e, self1) \<Rightarrow> (Inl e, self1)
          | (Inr (Some (Obj kvs)), self1) \<Rightarrow>
              (case read_prop kvs category of
                 Inl e \<Rightarrow> (Inl e, self1)
               | Inr (Some form) \<Rightarrow>
                   finish self1 baseKey (interp h self1 (Some form) (Some vals)) fmt
               | Inr None \<Rightarrow>
                   (let self2 = warn_if True (missing_plural_msg baseKey (language self1)) self1
                    in (case map_of kvs ''other'' of
                          Some form \<Rightarrow>
                            finish self2 baseKey (interp h self2 (Some form) (Some vals)) fmt
                        | None \<Rightarrow> finish self2 baseKey (Inr None) fmt)))
          | (Inr baseValue, self1) \<Rightarrow>
              (let pluralKey = baseKey @ ''_'' @ category
               in (case or_else (lookupWithFallback self1 pluralKey None)
                          (\<lambda>s. or_else (lookupWithFallback s (baseKey @ ''_other'') None)
                                  (\<lambda>s'. lookupWithFallback s' baseKey None)) of
                     (Inl e, self2) \<Rightarrow> (Inl e, self2)
                   | (Inr result, self2) \<Rightarrow>
                       finish self2 baseKey (interp h self2 result (Some vals)) fmt))))"

subsection \<open>\<open>withConfig\<close> and \<open>clone\<close>\<close>

text \<open>
  What \<open>withConfig\<close> returns: a fresh delegating proxy, known by its identity and its two
  overrides, or whatever the cache held under the composite key.
\<close>

datatype view = View nat "string option" scope | Cached "node option"

definition withConfig_key :: "('n, 'd) locl \<Rightarrow> string option \<Rightarrow> scope \<Rightarrow> string" where
  "withConfig_key self lang sc =
     ''proxy::'' @ (case lang of None \<Rightarrow> language self | Some l \<Rightarrow> l) @ ''::'' @
       (case sc of
          Multi ms \<Rightarrow> join_with ''|'' ms
        | Single s \<Rightarrow> s
        | NoScope \<Rightarrow> ''*'')"

text \<open>
  \<open>fresh\<close> is the next unused object identity; the function returns the view, the instance
  (which no statement of \<open>withConfig\<close> changes) and the next unused identity.
\<close>

definition withConfig ::
  "('n, 'd) locl \<Rightarrow> string option \<Rightarrow> scope \<Rightarrow> nat \<Rightarrow> view \<times> ('n, 'd) locl \<times> nat"
where
  "withConfig self lang sc fresh =
     (case cache self (withConfig_key self lang sc) of
        Some hit \<Rightarrow> (Cached hit, self, fresh)
      | None \<Rightarrow> (View fresh lang sc, self, Suc fresh))"

definition clone ::
  "(string \<rightharpoonup> ('n, 'd) formatter) \<Rightarrow> ('n, 'd) locl \<Rightarrow> string option \<Rightarrow> scope \<Rightarrow> nat \<Rightarrow>
   (js_error + ('n, 'd) locl) \<times> nat"
where
  "clone defaults self lang sc fresh =
     (new_locl defaults
        ((config self)\<lparr>cfg_language := Some (case lang of None \<Rightarrow> language self | Some l \<Rightarrow> l),
                        cfg_scope := sc\<rparr>)
        fresh,
      Suc fresh)"

text \<open>
  A method run on a view reads \<open>language\<close> and \<open>scope\<close> from the overrides and every other
  field, the cache included, from the instance behind it.
\<close>

definition view_self :: "('n, 'd) locl \<Rightarrow> string option \<Rightarrow> scope \<Rightarrow> ('n, 'd) locl" where
  "view_self self lang sc =
     self\<lparr>language := (case lang of None \<Rightarrow> language self | Some l \<Rightarrow> l), scope := sc\<rparr>"

definition view_done :: "('n, 'd) locl \<Rightarrow> ('n, 'd) locl \<Rightarrow> ('n, 'd) locl" where
  "view_done self v = self\<lparr>cache := cache v, warnings := warnings v\<rparr>"

definition view_get ::
  "('n, 'd) locl \<Rightarrow> string option \<Rightarrow> scope \<Rightarrow> string option \<Rightarrow>
   (js_error + node option) \<times> ('n, 'd) locl"
where
  "view_get self lang sc key =
     (case get (view_self self lang sc) key of (r, v) \<Rightarrow> (r, view_done self v))"


subsection \<open>\<open>makeReadOnly\<close>: objects with identity\<close>

text \<open>
  Whether two accesses give the same wrapper, and whether a mutation reaches an object,
  are questions about identity, so \<open>makeReadOnly\<close> is modelled over a store. An address is
  an index into the list of allocated objects. An ordinary object has its own properties,
  a flag that says that its prototype has been set to \<open>null\<close>, and a flag that says that it
  is frozen. A read-only view is a proxy with the handler of \<open>makeReadOnly\<close> and remembers
  its target. \<open>proxyCache\<close> is the side table from targets to views.
\<close>

datatype hval = HStr string | HRef nat

datatype cell = Plain "(string \<times> hval) list" bool bool | ReadOnly nat

record store =
  heap :: "cell list"
  proxyCache :: "(nat \<times> nat) list"

definition makeReadOnly :: "store \<Rightarrow> nat \<Rightarrow> nat \<times> store" where
  "makeReadOnly st obj =
     (case map_of (proxyCache st) obj of
        Some p \<Rightarrow> (p, st)
      | None \<Rightarrow>
          (let p = length (heap st)
           in (p, st\<lparr>heap := heap st @ [ReadOnly obj], proxyCache := (obj, p) # proxyCache st\<rparr>)))"

text \<open>
  The own property \<open>k\<close> of the object at \<open>a\<close>, as \<open>Object.getOwnPropertyDescriptor\<close> reports
  it: its value, and whether it is neither writable nor configurable. The handler has no
  trap for this operation, so a view answers with the property of its target, unwrapped.
  \<open>None\<close> is \<open>undefined\<close>.
\<close>

function own_property :: "store \<Rightarrow> nat \<Rightarrow> string \<Rightarrow> (hval \<times> bool) option" where
  "own_property st a k =
     (if a < length (heap st) then
        (case heap st ! a of
           Plain kvs null_proto frozen \<Rightarrow> map_option (\<lambda>v. (v, frozen)) (map_of kvs k)
         | ReadOnly tgt \<Rightarrow> if tgt < a then own_property st tgt k else None)
      else None)"
  by pat_completeness auto
termination
  by (relation "measure (\<lambda>(st, a, k). a)") auto

declare own_property.simps [simp del]

text \<open>
  Reading property \<open>k\<close> of the object at \<open>a\<close>. On a view this is the \<open>get\<close> trap: the value is
  read from the target and wrapped when it is an object. The host then checks the result
  against the target: a property of the target that is neither writable nor configurable
  must be reported with its own value, and a wrapper is another value, so the read raises
  \<open>TypeError\<close> (after the wrapper has been made). The outer \<open>None\<close> is a store no program
  builds: a dangling address, or a proxy that is not younger than its target.
\<close>

function js_get :: "store \<Rightarrow> nat \<Rightarrow> string \<Rightarrow> ((js_error + hval option) \<times> store) option" where
  "js_get st a k =
     (if a < length (heap st) then
        (case heap st ! a of
           Plain kvs null_proto frozen \<Rightarrow>
             (case map_of kvs k of
                Some v \<Rightarrow> Some (Inr (Some v), st)
              | None \<Rightarrow>
                  if \<not> null_proto \<and> inherited k then Some (Inl (HostMember k), st)
                  else Some (Inr None, st))
         | ReadOnly tgt \<Rightarrow>
             if tgt < a then
               (case js_get st tgt k of
                  None \<Rightarrow> None
                | Some (Inl e, st') \<Rightarrow> Some (Inl e, st')
                | Some (Inr (Some (HRef obj)), st') \<Rightarrow>
                    (case makeReadOnly st' obj of
                       (p, st'') \<Rightarrow>
                         (case own_property st tgt k of
                            Some (v, True) \<Rightarrow> Some (Inl TypeError, st'')
                          | _ \<Rightarrow> Some (Inr (Some (HRef p)), st'')))
                | Some (Inr val, st') \<Rightarrow> Some (Inr val, st'))
             else None)
      else None)"
  by pat_completeness auto
termination
  by (relation "measure (\<lambda>(st, a, k). a)") auto

declare js_get.simps [simp del]

text \<open>
  The four ways to change an object: assignment, \<open>delete\<close>, \<open>Object.defineProperty\<close> with a
  writable, enumerable and configurable value, and \<open>Object.setPrototypeOf(o, null)\<close>. On a
  view each is answered by its trap, which returns \<open>false\<close> and does nothing. On an ordinary
  object each takes effect unless the object is frozen; the assignment to \<open>__proto__\<close>
  reaches the inherited setter.
\<close>

datatype mutation =
    Assign string hval
  | DeleteProp string
  | DefineProp string hval
  | SetProtoNull

definition mutate_plain ::
  "mutation \<Rightarrow> (string \<times> hval) list \<Rightarrow> bool \<Rightarrow> bool \<Rightarrow> js_error + bool \<times> cell"
where
  "mutate_plain m kvs null_proto frozen =
     (case m of
        Assign k v \<Rightarrow>
          if map_of kvs k = None \<and> k = ''__proto__'' \<and> \<not> null_proto then Inl (HostMember k)
          else if frozen then Inr (False, Plain kvs null_proto frozen)
          else Inr (True, Plain (set_prop k v kvs) null_proto frozen)
      | DeleteProp k \<Rightarrow>
          if map_of kvs k = None then Inr (True, Plain kvs null_proto frozen)
          else if frozen then Inr (False, Plain kvs null_proto frozen)
          else Inr (True, Plain (filter (\<lambda>(k', v). k' \<noteq> k) kvs) null_proto frozen)
      | DefineProp k v \<Rightarrow>
          if frozen then Inr (False, Plain kvs null_proto frozen)
          else Inr (True, Plain (set_prop k v kvs) null_proto frozen)
      | SetProtoNull \<Rightarrow>
          if frozen then Inr (null_proto, Plain kvs null_proto frozen)
          else Inr (True, Plain kvs True frozen))"

definition js_mutate :: "store \<Rightarrow> nat \<Rightarrow> mutation \<Rightarrow> ((js_error + bool) \<times> store) option" where
  "js_mutate st a m =
     (if a < length (heap st) then
        (case heap st ! a of
           Plain kvs null_proto frozen \<Rightarrow>
             (case mutate_plain m kvs null_proto frozen of
                Inl e \<Rightarrow> Some (Inl e, st)
              | Inr (ok, c) \<Rightarrow> Some (Inr ok, st\<lparr>heap := (heap st)[a := c]\<rparr>))
         | ReadOnly tgt \<Rightarrow> Some (Inr False, st))
      else None)"

text \<open>
  The constructor wraps the resources (\<open>config.resources = this.makeReadOnly(...)\<close>), and
  \<open>get()\<close> on a translator without scope returns \<open>this.config.resources[language]\<close>.
\<close>

definition wrap_resources :: "store \<Rightarrow> nat \<Rightarrow> nat \<times> store" where
  "wrap_resources st res = makeReadOnly st res"

definition get_all :: "store \<Rightarrow> nat \<Rightarrow> string \<Rightarrow> ((js_error + hval option) \<times> store) option" where
  "get_all st wrapped lang = js_get st wrapped lang"

text \<open>
  A client of the translator: it holds the object \<open>root\<close> it was given and a current
  object; it reads properties, takes the value of a property from its descriptor
  (\<open>Object.getOwnPropertyDescriptor(cur, k).value\<close>), goes back to the root, and attempts
  mutations. A read or a mutation that raises is caught, and the client goes on.
\<close>

datatype client_op = Read string | Descriptor string | Back | Attempt mutation

fun run :: "store \<Rightarrow> nat \<Rightarrow> nat \<Rightarrow> client_op list \<Rightarrow> (store \<times> nat) option" where
  "run st root cur [] = Some (st, cur)"
| "run st root cur (Read k # ops) =
     (case js_get st cur k of
        None \<Rightarrow> None
      | Some (Inr (Some (HRef b)), st') \<Rightarrow> run st' root b ops
      | Some (r, st') \<Rightarrow> run st' root cur ops)"
| "run st root cur (Descriptor k # ops) =
     (case own_property st cur k of
        Some (HRef b, fixed) \<Rightarrow> run st root b ops
      | _ \<Rightarrow> run st root cur ops)"
| "run st root cur (Back # ops) = run st root root ops"
| "run st root cur (Attempt m # ops) =
     (case js_mutate st cur m of
        None \<Rightarrow> None
      | Some (ok, st') \<Rightarrow> run st' root cur ops)"

definition is_view :: "store \<Rightarrow> nat \<Rightarrow> bool" where
  "is_view st a \<longleftrightarrow>
     a < length (heap st) \<and>
     (case heap st ! a of ReadOnly tgt \<Rightarrow> True | Plain kvs null_proto frozen \<Rightarrow> False)"


subsection \<open>Example data\<close>

definition small_number :: "string \<Rightarrow> int \<Rightarrow> string" where
  "small_number l n =
     (if n = 0 then ''0'' else if n = 1 then ''1'' else if n = 2 then ''2''
      else if n = 5 then ''5'' else ''#'')"

definition en_host :: "(int, nat) host" where
  "en_host =
     \<lparr>plural_select =
        (\<lambda>l v. case v of Number n \<Rightarrow> if n = 1 then ''one'' else ''other'' | _ \<Rightarrow> ''other''),
      number_format = small_number,
      date_format = (\<lambda>l d. ''date''),
      string_of_number = small_number ''en'',
      string_of_date = (\<lambda>d. ''date'')\<rparr>"

definition mk_config ::
  "(string \<times> node) list \<Rightarrow> string \<Rightarrow> scope \<Rightarrow> bool \<Rightarrow> bool \<Rightarrow> (int, nat) locl_config"
where
  "mk_config res fb sc dev uc =
     \<lparr>cfg_resources = Some res, cfg_language = None, cfg_fallbackLanguage = fb,
      cfg_scope = sc, cfg_formatters = None, cfg_useDefaultFormatters = Unset,
      cfg_devMode = Flag dev, cfg_useCache = Flag uc\<rparr>"

text \<open>The instance the constructor builds from \<open>mk_config\<close>, for a non-empty fallback language.\<close>

definition mk_locl ::
  "(string \<times> node) list \<Rightarrow> string \<Rightarrow> scope \<Rightarrow> bool \<Rightarrow> bool \<Rightarrow> (int, nat) locl"
where
  "mk_locl res fb sc dev uc =
     \<lparr>ident = 0,
      config = (mk_config res fb sc dev uc)\<lparr>cfg_useDefaultFormatters := Flag True\<rparr>,
      language = fb, fallbackLanguage = fb, scope = sc, plural_lang = fb,
      formatters = Map.empty, cache = Map.empty, warnings = []\<rparr>"

definition example_resources :: "(string \<times> node) list" where
  "example_resources =
     [(''en'',
       Obj [(''msg'', Str ''Hello {count}''),
            (''item_one'', Str ''one item''),
            (''messages'',
             Obj [(''one'', Str ''You have one message.''),
                  (''other'', Str ''You have {count} messages.'')]),
            (''things'', Obj [(''other'', Str ''{count} things'')]),
            (''a|b'', Obj [(''x'', Str ''1'')]),
            (''a'', Obj [(''y'', Str ''2''), (''w'', Str ''9'')]),
            (''b'', Obj [(''z'', Str ''3'')])])]"

definition count_bag :: "int \<Rightarrow> (int, nat) bag" where
  "count_bag n = (\<lambda>k. Undefined)(''count'' := Number n)"

definition str_bag :: "string \<Rightarrow> string \<Rightarrow> (int, nat) bag" where
  "str_bag k v = (\<lambda>x. Undefined)(k := Node (Str v))"

text \<open>
  The caller's resources as three ordinary objects, the same resources frozen, and a
  client of \<open>get()\<close> that reads and tries every kind of mutation.
\<close>

definition raw_store :: store where
  "raw_store =
     \<lparr>heap = [Plain [(''en'', HRef 1)] False False,
              Plain [(''greeting'', HStr ''Hello''), (''nested'', HRef 2)] False False,
              Plain [(''a'', HStr ''x'')] False False],
      proxyCache = []\<rparr>"

definition frozen_store :: store where
  "frozen_store =
     \<lparr>heap = [Plain [(''en'', HRef 1)] False True,
              Plain [(''greeting'', HStr ''Hello''), (''nested'', HRef 2)] False True,
              Plain [(''a'', HStr ''x'')] False True],
      proxyCache = []\<rparr>"

definition client_ops :: "client_op list" where
  "client_ops =
     [Attempt (Assign ''greeting'' (HStr ''Bye'')), Attempt SetProtoNull, Read ''nested'',
      Attempt (DeleteProp ''a''), Attempt (DefineProp ''b'' (HStr ''y'')), Back, Read ''nested'']"

subsection \<open>Notions used in the statements and proofs\<close>

text \<open>The pattern occurs in \<open>s\<close> at index \<open>j\<close>.\<close>

definition occurs_at :: "string \<Rightarrow> string \<Rightarrow> nat \<Rightarrow> bool" where
  "occurs_at pat s j \<longleftrightarrow> j \<le> length s \<and> prefix pat (drop j s)"

text \<open>
  No opening brace stands between an opening brace and the next closing brace;
  \<open>inside\<close> says that the text starts within a group.
\<close>

fun no_nested :: "bool \<Rightarrow> string \<Rightarrow> bool" where
  "no_nested inside [] = True"
| "no_nested inside (c # cs) =
     (if c = CHR ''{'' then \<not> inside \<and> no_nested True cs
      else if c = CHR ''}'' then no_nested False cs
      else no_nested inside cs)"

text \<open>
  The strings \<open>rs\<close> occur in \<open>s\<close> one after the other without overlap, and \<open>b\<close> is what
  remains of \<open>s\<close> after the last of them, or a suffix of that.
\<close>

fun embeds :: "string list \<Rightarrow> string \<Rightarrow> string \<Rightarrow> bool" where
  "embeds [] s b = suffix b s"
| "embeds (r # rs) s b = (\<exists>a rest. s = a @ r @ rest \<and> embeds rs rest b)"

text \<open>Invariants of the token scan: an open token has a positive depth, and the tokens
  found so far lie, in order, in the part of the text before the open token.\<close>

definition scan_inv :: "scan_state \<Rightarrow> bool" where
  "scan_inv st \<longleftrightarrow> (0 \<le> start st \<longrightarrow> 1 \<le> depth st)"

definition scan_pos :: "scan_state \<Rightarrow> nat \<Rightarrow> nat" where
  "scan_pos st i = (if 0 \<le> start st then nat (start st) else i)"

definition scan_emb :: "string \<Rightarrow> scan_state \<Rightarrow> nat \<Rightarrow> bool" where
  "scan_emb res st i \<longleftrightarrow>
     scan_pos st i \<le> i \<and> embeds (map raw (tokens st)) (take (scan_pos st i) res) []"

text \<open>Sequencing of two steps that may end abnormally.\<close>

definition and_then :: "js_error + 'a \<Rightarrow> ('a \<Rightarrow> js_error + 'b) \<Rightarrow> js_error + 'b" where
  "and_then r f = (case r of Inl e \<Rightarrow> Inl e | Inr x \<Rightarrow> f x)"

text \<open>
  The tree a translator works with for a language: what \<open>buildTranslationObject\<close> returns
  in the translator's present state, from its cache or computed. \<open>lookup\<close> is the search of
  a key in the tree of the current language and then in that of the fallback language.
  The lemmas \<open>build_stable\<close> and \<open>lookup_stable\<close> below show that the calls of the engine
  return these values and leave them as they are.
\<close>

definition tree_of :: "('n, 'd) locl \<Rightarrow> string \<Rightarrow> js_error + node option" where
  "tree_of self lang = fst (buildTranslationObject self lang)"

definition lookup :: "('n, 'd) locl \<Rightarrow> string \<Rightarrow> js_error + node option" where
  "lookup self key =
     (case tree_of self (language self) of
        Inl e \<Rightarrow> Inl e
      | Inr tree \<Rightarrow>
          (case findTranslation (split_on CHR ''.'' key) tree of
             Inl e \<Rightarrow> Inl e
           | Inr (Some v) \<Rightarrow> Inr (Some v)
           | Inr None \<Rightarrow>
               (case tree_of self (fallbackLanguage self) of
                  Inl e \<Rightarrow> Inl e
                | Inr fbBase \<Rightarrow> findTranslation (split_on CHR ''.'' key) fbBase)))"

text \<open>The tree of a language computed from the resources and the scope, without the cache.\<close>

definition scoped_tree :: "(string \<times> node) list \<Rightarrow> scope \<Rightarrow> string \<Rightarrow> js_error + node option" where
  "scoped_tree res sc lang =
     (case read_prop res lang of
        Inl e \<Rightarrow> Inl e
      | Inr langObject \<Rightarrow>
          (case sc of
             NoScope \<Rightarrow> Inr langObject
           | Single s \<Rightarrow> if s = [] then Inr langObject else walk (split_on CHR ''.'' s) langObject
           | Multi ms \<Rightarrow>
               (case combine ms langObject (Fresh []) of
                  Inl e \<Rightarrow> Inl e
                | Inr combined \<Rightarrow> Inr (Some (to_node combined)))))"

text \<open>
  \<open>self'\<close> is \<open>self\<close> after some calls: the same fields but for the cache and the warnings,
  the same tree for every language, warnings that only grow, and none added outside dev
  mode.
\<close>

definition same_static :: "('n, 'd) locl \<Rightarrow> ('n, 'd) locl \<Rightarrow> bool" where
  "same_static self self' \<longleftrightarrow> self'\<lparr>cache := cache self, warnings := warnings self\<rparr> = self"

definition quiet :: "('n, 'd) locl \<Rightarrow> ('n, 'd) locl \<Rightarrow> bool" where
  "quiet self self' \<longleftrightarrow> (\<not> devMode self \<longrightarrow> warnings self' = warnings self)"

definition evolves :: "('n, 'd) locl \<Rightarrow> ('n, 'd) locl \<Rightarrow> bool" where
  "evolves self self' \<longleftrightarrow>
     same_static self self' \<and> quiet self self' \<and> prefix (warnings self) (warnings self') \<and>
     (\<forall>lang. tree_of self' lang = tree_of self lang)"

text \<open>The optional explicit formatter applied to a value, and \<open>interpolate\<close> on a node.\<close>

definition formatted ::
  "(string \<rightharpoonup> ('n, 'd) formatter) \<Rightarrow> node \<Rightarrow> (string \<times> string list option) option \<Rightarrow>
   js_error + node"
where
  "formatted fmts v fmt =
     (case fmt of
        None \<Rightarrow> Inr v
      | Some (f, args) \<Rightarrow>
          if f = [] then Inr v
          else (case js_read fmts f of
                  Inl e \<Rightarrow> Inl e
                | Inr None \<Rightarrow> Inr v
                | Inr (Some fn) \<Rightarrow> Inr (Str (fn (Node v) args))))"

definition interpolated ::
  "('n, 'd) host \<Rightarrow> ('n, 'd) locl \<Rightarrow> node \<Rightarrow> ('n, 'd) bag \<Rightarrow> js_error + node"
where
  "interpolated h self v vals =
     (case v of
        Str s \<Rightarrow>
          (case subst_tokens h (formatters self) (language self) vals (find_tokens s) s of
             Inl e \<Rightarrow> Inl e
           | Inr output \<Rightarrow> Inr (Str output))
      | Obj kvs \<Rightarrow> Inr (Obj kvs))"

text \<open>\<open>interpolate(result, values) ?? key\<close> followed by the optional explicit formatter.\<close>

definition finished ::
  "(string \<rightharpoonup> ('n, 'd) formatter) \<Rightarrow> string \<Rightarrow> js_error + node option \<Rightarrow>
   (string \<times> string list option) option \<Rightarrow> js_error + node"
where
  "finished fmts key interpolation fmt =
     and_then interpolation (\<lambda>r. formatted fmts (case r of None \<Rightarrow> Str key | Some v \<Rightarrow> v) fmt)"

text \<open>The first of several lookups that finds something.\<close>

fun first_hit :: "(js_error + node option) list \<Rightarrow> js_error + node option" where
  "first_hit [] = Inr None"
| "first_hit (r # rs) =
     (case r of
        Inl e \<Rightarrow> Inl e
      | Inr (Some v) \<Rightarrow> Inr (Some v)
      | Inr None \<Rightarrow> first_hit rs)"

definition implicit_plural ::
  "('n, 'd) host \<Rightarrow> ('n, 'd) locl \<Rightarrow> string \<Rightarrow> ('n, 'd) bag option \<Rightarrow> js_error + node option"
where
  "implicit_plural h self key values =
     (case values of
        None \<Rightarrow> Inr None
      | Some vals \<Rightarrow>
          if vals ''count'' \<noteq> Undefined \<and> \<not> plural_suffixed key then
            and_then (lookup self (key @ ''_'' @ plural_select h (plural_lang self) (vals ''count'')))
              (\<lambda>r. interp h self r values)
          else Inr None)"


text \<open>
  A case of a select expression at the start of \<open>s\<close>: a name of word characters, white
  space, and a text in braces that holds no closing brace; \<open>r\<close> is what follows it.
\<close>

definition case_at :: "string \<Rightarrow> string \<Rightarrow> string \<Rightarrow> string \<Rightarrow> string \<Rightarrow> bool" where
  "case_at s k sp txt r \<longleftrightarrow>
     s = k @ sp @ CHR ''{'' # txt @ CHR ''}'' # r \<and> k \<noteq> [] \<and> list_all is_word k \<and>
     list_all is_space sp \<and> CHR ''}'' \<notin> set txt"

definition starts_case :: "string \<Rightarrow> bool" where
  "starts_case s \<longleftrightarrow> (\<exists>k sp txt r. case_at s k sp txt r)"

text \<open>
  A sequence of calls on one instance, each call made on the instance as the call before
  left it, and the list of what the calls return (\<open>changeLanguage\<close> returns nothing).
\<close>

datatype ('n, 'd) call =
    CallT "string option" "('n, 'd) bag option" "(string \<times> string list option) option"
  | CallGet "string option"
  | CallPlural string "('n, 'd) bag" "(string \<times> string list option) option"
  | CallFormat string string "string list option"
  | CallChangeLanguage string

fun exec ::
  "('n, 'd) host \<Rightarrow> ('n, 'd) locl \<Rightarrow> ('n, 'd) call \<Rightarrow> (js_error + node option) \<times> ('n, 'd) locl"
where
  "exec h self (CallT key vs fmt) = t h self key vs fmt"
| "exec h self (CallGet key) = get self key"
| "exec h self (CallPlural key vals fmt) =
     (case plural h self key vals fmt of (r, self') \<Rightarrow> (map_sum id Some r, self'))"
| "exec h self (CallFormat v f args) =
     (case format self v f args of (r, self') \<Rightarrow> (map_sum id Some r, self'))"
| "exec h self (CallChangeLanguage lang) = (Inr None, changeLanguage self lang)"

fun run_calls ::
  "('n, 'd) host \<Rightarrow> ('n, 'd) locl \<Rightarrow> ('n, 'd) call list \<Rightarrow> (js_error + node option) list"
where
  "run_calls h self [] = []"
| "run_calls h self (c # cs) = (case exec h self c of (r, self') \<Rightarrow> r # run_calls h self' cs)"

text \<open>
  Two instances that resolve alike: they may differ in cache, warnings and switches, and
  work with the same trees.
\<close>

definition similar :: "('n, 'd) locl \<Rightarrow> ('n, 'd) locl \<Rightarrow> bool" where
  "similar a b \<longleftrightarrow>
     resources a = resources b \<and> language a = language b \<and>
     fallbackLanguage a = fallbackLanguage b \<and> scope a = scope b \<and>
     plural_lang a = plural_lang b \<and> formatters a = formatters b \<and>
     (\<forall>lang. tree_of a lang = tree_of b lang)"

section \<open>Properties\<close>

subsection \<open>Basic facts\<close>

lemma mk_locl_constructed:
  "fb \<noteq> [] \<Longrightarrow> new_locl Map.empty (mk_config res fb sc dev uc) 0 = Inr (mk_locl res fb sc dev uc)"
  by (simp add: new_locl_def mk_config_def mk_locl_def isLanguage_def or_default_def)



lemma interp_None: "interp h s None values = Inr None"
  by (simp add: interp_def interpolate_def split: option.splits)

lemma t_nonempty:
  "key \<noteq> [] \<Longrightarrow> t h self (Some key) values fmt =
     (case checkPlural h self key values of
        (Inl e, self1) \<Rightarrow> (Inl e, self1)
      | (Inr (Some pluralCheckResult), self1) \<Rightarrow> (Inr (Some pluralCheckResult), self1)
      | (Inr None, self1) \<Rightarrow>
          (case lookupWithFallback self1 key None of
             (Inl e, self2) \<Rightarrow> (Inl e, self2)
           | (Inr result, self2) \<Rightarrow>
               (case finish self2 key (interp h self2 result values) fmt of
                  (Inl e, self3) \<Rightarrow> (Inl e, self3)
                | (Inr r, self3) \<Rightarrow> (Inr (Some r), self3))))"
  by (cases key) (auto simp: t_def Let_def split: prod.splits sum.splits option.splits)

subsection \<open>Implicit plural in \<open>t\<close>\<close>





subsection \<open>Replacing the first occurrence\<close>

lemma occurs_at_0: "occurs_at pat s 0 \<longleftrightarrow> prefix pat s"
  by (simp add: occurs_at_def)

lemma occurs_at_Suc: "occurs_at pat (c # cs) (Suc j) \<longleftrightarrow> occurs_at pat cs j"
  by (simp add: occurs_at_def)

lemma index_of_Some:
  "index_of pat s = Some i \<Longrightarrow> occurs_at pat s i \<and> (\<forall>j<i. \<not> occurs_at pat s j)"
proof (induction s arbitrary: i)
  case Nil
  then show ?case by (simp add: occurs_at_def split: if_splits)
next
  case (Cons c cs)
  show ?case
  proof (cases "prefix pat (c # cs)")
    case True
    with Cons.prems show ?thesis by (simp add: occurs_at_0)
  next
    case False
    with Cons.prems obtain i' where i': "index_of pat cs = Some i'" "i = Suc i'" by auto
    from Cons.IH [OF i'(1)] have ih: "occurs_at pat cs i'" "\<forall>j<i'. \<not> occurs_at pat cs j" by auto
    have "\<And>j. j < Suc i' \<Longrightarrow> \<not> occurs_at pat (c # cs) j"
    proof -
      fix j assume "j < Suc i'"
      then show "\<not> occurs_at pat (c # cs) j"
        using False ih(2) by (cases j) (simp_all add: occurs_at_0 occurs_at_Suc)
    qed
    with ih(1) i'(2) show ?thesis by (simp add: occurs_at_Suc)
  qed
qed

lemma index_of_None:
  "index_of pat s = None \<Longrightarrow> \<not> occurs_at pat s j"
proof (induction s arbitrary: j)
  case Nil
  then show ?case by (simp add: occurs_at_def split: if_splits)
next
  case (Cons c cs)
  then have np: "\<not> prefix pat (c # cs)" and n: "index_of pat cs = None"
    by (auto split: if_splits)
  show ?case using np Cons.IH [OF n] by (cases j) (simp_all add: occurs_at_0 occurs_at_Suc)
qed

lemma index_of_first:
  assumes "occurs_at pat s i" and "\<forall>j<i. \<not> occurs_at pat s j"
  shows "index_of pat s = Some i"
proof (cases "index_of pat s")
  case None
  with assms(1) index_of_None show ?thesis by blast
next
  case (Some k)
  from index_of_Some [OF Some] have k: "occurs_at pat s k" "\<forall>j<k. \<not> occurs_at pat s j" by auto
  have "k = i" using assms k by (meson nat_neq_iff)
  with Some show ?thesis by simp
qed

lemma index_of_bound:
  "\<exists>i. index_of pat (p @ pat @ b) = Some i \<and> i \<le> length p"
proof (induction p)
  case Nil
  have "prefix pat (pat @ b)" by simp
  then show ?case by (cases "pat @ b") (auto simp del: prefix_code)
next
  case (Cons c p)
  then show ?case by auto
qed

lemma js_replace_keeps_tail:
  "\<exists>x. js_replace (p @ pat @ b) pat rep = x @ b"
proof -
  obtain i where i: "index_of pat (p @ pat @ b) = Some i" "i \<le> length p"
    using index_of_bound by blast
  have "drop (i + length pat) (p @ pat @ b) = drop (i + length pat) (p @ pat) @ b"
    using i(2) by simp
  then show ?thesis using i(1) by (simp add: js_replace_def Let_def)
qed

lemma embeds_extend: "embeds rs s b \<Longrightarrow> embeds rs (y @ s) b"
proof (cases rs)
  case Nil
  assume "embeds rs s b" with Nil show ?thesis by (simp add: suffix_appendI)
next
  case (Cons r rs')
  assume "embeds rs s b"
  with Cons obtain a rest where "s = a @ r @ rest" "embeds rs' rest b" by auto
  then have "y @ s = (y @ a) @ r @ rest \<and> embeds rs' rest b" by simp
  with Cons show ?thesis by (metis embeds.simps(2))
qed


lemma subst_tokens_keeps_tail:
  "embeds (map raw toks) s b \<Longrightarrow> subst_tokens h fmts lang vals toks s = Inr out \<Longrightarrow> suffix b out"
proof (induction toks arbitrary: s)
  case Nil
  then show ?case by simp
next
  case (Cons tok toks)
  from Cons.prems(1) obtain a rest where s: "s = a @ raw tok @ rest" and e: "embeds (map raw toks) rest b"
    by auto
  from Cons.prems(2) obtain rep where rep: "token_replacement h fmts lang vals tok = Inr rep"
    and rest: "subst_tokens h fmts lang vals toks (js_replace s (raw tok) rep) = Inr out"
    by (auto simp: subst_token_def split: sum.splits)
  obtain x where x: "js_replace s (raw tok) rep = x @ rest"
    unfolding s using js_replace_keeps_tail by blast
  have "embeds (map raw toks) (x @ rest) b" using e by (rule embeds_extend)
  from Cons.IH [OF this] rest x show ?case by simp
qed


lemma embeds_snoc: "embeds rs s [] \<Longrightarrow> embeds (rs @ [r]) (s @ r) []"
proof (induction rs arbitrary: s)
  case Nil
  have "s @ r = s @ r @ []" by simp
  then show ?case unfolding append_Nil embeds.simps by (metis suffix_bot.bot_least)
next
  case (Cons x xs)
  then obtain a rest where s: "s = a @ x @ rest" and e: "embeds xs rest []" by auto
  from Cons.IH [OF e] have "embeds (xs @ [r]) (rest @ r) []" .
  moreover have "s @ r = a @ x @ (rest @ r)" using s by simp
  ultimately show ?case by (metis append_Cons embeds.simps(2))
qed

lemma embeds_grow: "embeds rs s [] \<Longrightarrow> embeds rs (s @ y) []"
proof (induction rs arbitrary: s)
  case Nil
  show ?case by simp
next
  case (Cons x xs)
  then obtain a rest where s: "s = a @ x @ rest" and e: "embeds xs rest []" by auto
  from Cons.IH [OF e] have "embeds xs (rest @ y) []" .
  moreover have "s @ y = a @ x @ (rest @ y)" using s by simp
  ultimately show ?case by (metis embeds.simps(2))
qed

lemma embeds_tail: "embeds rs s [] \<Longrightarrow> embeds rs (s @ b) b"
proof (induction rs arbitrary: s)
  case Nil
  show ?case by (simp add: suffix_def)
next
  case (Cons x xs)
  then obtain a rest where s: "s = a @ x @ rest" and e: "embeds xs rest []" by auto
  from Cons.IH [OF e] have "embeds xs (rest @ b) b" .
  moreover have "s @ b = a @ x @ (rest @ b)" using s by simp
  ultimately show ?case by (metis embeds.simps(2))
qed

lemma scan_from_append:
  "scan_from res i (xs @ ys) st = scan_from res (i + length xs) ys (scan_from res i xs st)"
  by (induction xs arbitrary: i st) simp_all

text \<open>
  C6, as the code has it. The tokens are processed in discovery order, each on the output
  the tokens before it have left, and interpolation ends when the replacement of a token
  cannot be computed. The substitution for a token replaces the first (leftmost)
  occurrence of its raw span in the current output, and that occurrence only: the text
  before it and the text after it, later occurrences of the same span included, are kept.
  What is put in its place is the replacement of the token with the patterns \<open>$$\<close>, \<open>$&\<close>,
  \<open>$`\<close> and \<open>$'\<close> of \<open>String.prototype.replace\<close> expanded.
\<close>

theorem subst_token_first_occurrence:
  assumes "occurs_at (raw tok) output i" and "\<forall>j<i. \<not> occurs_at (raw tok) output j"
  shows "subst_token h fmts lang vals output tok =
           (case token_replacement h fmts lang vals tok of
              Inl e \<Rightarrow> Inl e
            | Inr replacement \<Rightarrow>
                Inr (take i output @
                     get_substitution (raw tok) (take i output)
                       (drop (i + length (raw tok)) output) replacement @
                     drop (i + length (raw tok)) output)) \<and>
         subst_tokens h fmts lang vals (tok # toks) output =
           (case subst_token h fmts lang vals output tok of
              Inl e \<Rightarrow> Inl e
            | Inr output' \<Rightarrow> subst_tokens h fmts lang vals toks output') \<and>
         interpolate h fmts lang (Some (Str s)) (Some vals) =
           (case subst_tokens h fmts lang vals (find_tokens s) s of
              Inl e \<Rightarrow> Inl e
            | Inr out \<Rightarrow> Inr (Some (Str out)))"
  using index_of_first [OF assms]
  by (simp add: subst_token_def js_replace_def Let_def interpolate_def split: sum.splits)

text \<open>
  The template \<open>{a}-{a}\<close> has two identical tokens; after the first is processed with
  \<open>a = X\<close> the second occurrence is still there. With \<open>a = x{a}\<close> the two readings also
  differ in the final output: replacing every occurrence at once would give \<open>xx{a}xx{a}\<close>.
\<close>

theorem subst_token_counterexample:
  "map raw (find_tokens ''{a}-{a}'') = [''{a}'', ''{a}''] \<and>
   subst_token en_host Map.empty ''en'' (str_bag ''a'' ''X'') ''{a}-{a}'' (mk_token ''{a}'')
     = Inr ''X-{a}'' \<and>
   interpolate en_host Map.empty ''en'' (Some (Str ''{a}{a}'')) (Some (str_bag ''a'' ''x{a}''))
     = Inr (Some (Str ''xx{a}{a}''))"
  by code_simp

theorem subst_token_first_occurrence_witness:
  "occurs_at ''{a}'' ''Hi {a}-{a}'' 3 \<and>
   \<not> occurs_at ''{a}'' ''Hi {a}-{a}'' 0 \<and> \<not> occurs_at ''{a}'' ''Hi {a}-{a}'' 1 \<and>
   \<not> occurs_at ''{a}'' ''Hi {a}-{a}'' 2 \<and>
   subst_token en_host Map.empty ''en'' (str_bag ''a'' ''X'') ''Hi {a}-{a}'' (mk_token ''{a}'')
     = Inr ''Hi X-{a}''"
proof -
  have h1: "occurs_at (raw (mk_token ''{a}'')) ''Hi {a}-{a}'' 3" by code_simp
  have h2: "\<forall>j<3. \<not> occurs_at (raw (mk_token ''{a}'')) ''Hi {a}-{a}'' j"
  proof (intro allI impI)
    fix j :: nat assume "j < 3"
    then have "j = 0 \<or> j = 1 \<or> j = 2" by auto
    moreover have "\<not> occurs_at (raw (mk_token ''{a}'')) ''Hi {a}-{a}'' 0" by code_simp
    moreover have "\<not> occurs_at (raw (mk_token ''{a}'')) ''Hi {a}-{a}'' 1" by code_simp
    moreover have "\<not> occurs_at (raw (mk_token ''{a}'')) ''Hi {a}-{a}'' 2" by code_simp
    ultimately show "\<not> occurs_at (raw (mk_token ''{a}'')) ''Hi {a}-{a}'' j" by blast
  qed
  have r: "raw (mk_token ''{a}'') = ''{a}''" by (simp add: mk_token_def)
  have v: "(case token_replacement en_host Map.empty ''en'' (str_bag ''a'' ''X'') (mk_token ''{a}'') of
              Inl e \<Rightarrow> Inl e
            | Inr replacement \<Rightarrow>
                Inr (take 3 ''Hi {a}-{a}'' @
                     get_substitution ''{a}'' (take 3 ''Hi {a}-{a}'')
                       (drop (3 + length ''{a}'') ''Hi {a}-{a}'') replacement @
                     drop (3 + length ''{a}'') ''Hi {a}-{a}'')) = Inr ''Hi X-{a}''" by code_simp
  show ?thesis
    using subst_token_first_occurrence [OF h1 h2, of en_host Map.empty "''en''" "str_bag ''a'' ''X''" "[]" "[]"]
      h1 h2 v unfolding r by simp
qed


subsection \<open>The token scan after a stray closing brace\<close>

lemma scan_char_inv: "scan_inv st \<Longrightarrow> scan_inv (scan_char res i c st)"
  by (auto simp: scan_inv_def scan_char_def Let_def)

lemma take_Suc_grow: "\<exists>y. take (Suc i) res = take i res @ y"
  by (metis take_add Suc_eq_plus1)

lemma take_slice: "a \<le> i \<Longrightarrow> take (Suc i) res = take a res @ slice res a (Suc i)"
proof -
  assume "a \<le> i"
  then have "Suc i = a + (Suc i - a)" by simp
  then have "take (Suc i) res = take a res @ take (Suc i - a) (drop a res)"
    by (metis take_add)
  then show ?thesis by (simp add: slice_def)
qed

lemma scan_char_emb:
  assumes "scan_inv st" and "scan_emb res st i"
  shows "scan_emb res (scan_char res i c st) (Suc i)"
proof -
  obtain y where y: "take (Suc i) res = take i res @ y" using take_Suc_grow by blast
  have grow: "embeds (map raw (tokens st)) (take i res) [] \<Longrightarrow>
              embeds (map raw (tokens st)) (take (Suc i) res) []"
    unfolding y by (rule embeds_grow)
  show ?thesis
  proof (cases "c = CHR ''{''")
    case True
    with assms grow show ?thesis
      by (auto simp: scan_emb_def scan_pos_def scan_char_def scan_inv_def)
  next
    case False
    note nb = this
    show ?thesis
    proof (cases "c = CHR ''}''")
      case False
      with nb assms grow show ?thesis
        by (auto simp: scan_emb_def scan_pos_def scan_char_def)
    next
      case True
      show ?thesis
      proof (cases "depth st - 1 = 0 \<and> 0 \<le> start st")
        case False
        with True assms grow show ?thesis
          by (auto simp: scan_emb_def scan_pos_def scan_char_def Let_def)
      next
        case push: True
        then have a: "nat (start st) \<le> i" and
          e: "embeds (map raw (tokens st)) (take (nat (start st)) res) []"
          using assms(2) by (auto simp: scan_emb_def scan_pos_def)
        have "embeds (map raw (tokens st) @ [slice res (nat (start st)) (Suc i)])
                (take (nat (start st)) res @ slice res (nat (start st)) (Suc i)) []"
          using e by (rule embeds_snoc)
        then have "embeds (map raw (tokens st) @ [slice res (nat (start st)) (Suc i)])
                (take (Suc i) res) []"
          using take_slice [OF a] by simp
        with True push show ?thesis
          by (simp add: scan_emb_def scan_pos_def scan_char_def Let_def mk_token_def)
      qed
    qed
  qed
qed

lemma scan_from_emb:
  "scan_inv st \<Longrightarrow> scan_emb res st i \<Longrightarrow>
   scan_inv (scan_from res i cs st) \<and> scan_emb res (scan_from res i cs st) (i + length cs)"
proof (induction cs arbitrary: i st)
  case Nil
  then show ?case by simp
next
  case (Cons c cs)
  from Cons.IH [OF scan_char_inv [OF Cons.prems(1)] scan_char_emb [OF Cons.prems]]
  show ?case by simp
qed

lemma scan_prefix_emb:
  assumes "n \<le> length res"
  shows "scan_inv (scan_prefix res n) \<and> scan_emb res (scan_prefix res n) n"
proof -
  have i: "scan_inv scan_init" by (simp add: scan_inv_def scan_init_def)
  have e: "scan_emb res scan_init 0" by (simp add: scan_emb_def scan_pos_def scan_init_def)
  from scan_from_emb [OF i e, of "take n res"] assms show ?thesis
    by (simp add: scan_prefix_def)
qed

lemma scan_no_nested:
  "no_nested b cs \<Longrightarrow> start st < 0 \<Longrightarrow> depth st \<le> (if b then 0 else - 1) \<Longrightarrow>
   tokens (scan_from res i cs st) = tokens st"
proof (induction cs arbitrary: b st i)
  case Nil
  then show ?case by simp
next
  case (Cons c cs)
  show ?case
  proof (cases "c = CHR ''{''")
    case True
    with Cons.prems have nb: "\<not> b" and nn: "no_nested True cs" by auto
    let ?st = "scan_char res i c st"
    have "start ?st < 0" "depth ?st \<le> (if True then 0 else - 1)" "tokens ?st = tokens st"
      using True nb Cons.prems(2,3) by (auto simp: scan_char_def)
    with Cons.IH [OF nn, of ?st] show ?thesis by simp
  next
    case False
    note nb = this
    show ?thesis
    proof (cases "c = CHR ''}''")
      case True
      with Cons.prems have nn: "no_nested False cs" by auto
      let ?st = "scan_char res i c st"
      have "start ?st < 0" "depth ?st \<le> (if False then 0 else - 1)" "tokens ?st = tokens st"
        using True Cons.prems(2,3) by (auto simp: scan_char_def Let_def split: if_splits)
      with Cons.IH [OF nn, of ?st] show ?thesis by simp
    next
      case False
      with nb Cons.prems have nn: "no_nested b cs" by auto
      have "scan_char res i c st = st" using nb False by (simp add: scan_char_def)
      with Cons.IH [OF nn Cons.prems(2,3)] show ?thesis by simp
    qed
  qed
qed

lemma scan_prefix_Suc:
  assumes "n < length res"
  shows "scan_prefix res (Suc n) = scan_char res n (res ! n) (scan_prefix res n)"
proof -
  have "take (Suc n) res = take n res @ [res ! n]" using assms by (rule take_Suc_conv_app_nth)
  then show ?thesis using assms by (simp add: scan_prefix_def scan_from_append)
qed

lemma subst_tokens_total:
  "list_all (\<lambda>tok. \<not> isl (token_replacement h fmts lang vals tok)) toks \<Longrightarrow>
   \<not> isl (subst_tokens h fmts lang vals toks out)"
proof (induction toks arbitrary: out)
  case Nil
  show ?case by simp
next
  case (Cons tok toks)
  then obtain r where "token_replacement h fmts lang vals tok = Inr r"
    by (cases "token_replacement h fmts lang vals tok") auto
  with Cons show ?case by (simp add: subst_token_def)
qed

text \<open>
  C10, as the code has it. Let position \<open>n\<close> of a template hold a closing brace that is
  unmatched (the scan has depth at most 0 before it), and let the text after it contain no
  nested braces. Then the depth is negative after that brace, the scan recognises no token
  at or after \<open>n\<close>, and for any value bag the output of interpolation ends with the text
  from \<open>n\<close> on, verbatim. Interpolation produces that output unless the replacement of a
  token (which then stands before \<open>n\<close>) cannot be computed.
\<close>

theorem stray_brace_hides_flat_groups:
  assumes "n < length res" and "res ! n = CHR ''}''"
    and "depth (scan_prefix res n) \<le> 0"
    and "no_nested False (drop (Suc n) res)"
  shows "find_tokens res = tokens (scan_prefix res n) \<and>
         depth (scan_prefix res (Suc n)) < 0 \<and>
         (\<forall>out. subst_tokens h fmts lang vals (find_tokens res) res = Inr out \<longrightarrow>
                suffix (drop n res) out) \<and>
         ((\<exists>e. interpolate h fmts lang (Some (Str res)) (Some vals) = Inl e) \<or>
          (\<exists>out. interpolate h fmts lang (Some (Str res)) (Some vals) = Inr (Some (Str out)) \<and>
                 suffix (drop n res) out)) \<and>
         (list_all (\<lambda>tok. \<not> isl (token_replacement h fmts lang vals tok)) (find_tokens res) \<longrightarrow>
            (\<exists>out. interpolate h fmts lang (Some (Str res)) (Some vals) = Inr (Some (Str out)) \<and>
                   suffix (drop n res) out))"
proof -
  let ?sp = "scan_prefix res n"
  have n: "n \<le> length res" using assms(1) by simp
  from scan_prefix_emb [OF n] have inv: "scan_inv ?sp" and emb: "scan_emb res ?sp n" by auto
  have st: "start ?sp < 0" using inv assms(3) by (auto simp: scan_inv_def)
  have split: "res = take n res @ CHR ''}'' # drop (Suc n) res"
    using assms(1,2) by (metis append_take_drop_id Cons_nth_drop_Suc)
  have "scan_prefix res (length res) = scan_from res 0 (take n res @ CHR ''}'' # drop (Suc n) res) scan_init"
    using split by (simp add: scan_prefix_def)
  also have "\<dots> = scan_from res n (CHR ''}'' # drop (Suc n) res) ?sp"
    using n by (simp add: scan_from_append scan_prefix_def)
  also have "\<dots> = scan_from res (Suc n) (drop (Suc n) res) (?sp\<lparr>depth := depth ?sp - 1\<rparr>)"
    using st assms(3) by (simp add: scan_char_def Let_def)
  finally have full: "scan_prefix res (length res) =
      scan_from res (Suc n) (drop (Suc n) res) (?sp\<lparr>depth := depth ?sp - 1\<rparr>)" .
  have toks: "find_tokens res = tokens ?sp"
    unfolding find_tokens_def full
    using scan_no_nested [OF assms(4), of "?sp\<lparr>depth := depth ?sp - 1\<rparr>" res "Suc n"] st assms(3)
    by simp
  have dep: "depth (scan_prefix res (Suc n)) < 0"
    unfolding scan_prefix_Suc [OF assms(1)] assms(2) using st assms(3)
    by (simp add: scan_char_def Let_def)
  have "embeds (map raw (tokens ?sp)) (take n res) []"
    using emb st by (simp add: scan_emb_def scan_pos_def)
  then have "embeds (map raw (tokens ?sp)) (take n res @ drop n res) (drop n res)"
    by (rule embeds_tail)
  then have e: "embeds (map raw (find_tokens res)) res (drop n res)" using toks by simp
  have suf: "\<And>out. subst_tokens h fmts lang vals (find_tokens res) res = Inr out \<Longrightarrow>
               suffix (drop n res) out"
    using e by (rule subst_tokens_keeps_tail)
  have i: "interpolate h fmts lang (Some (Str res)) (Some vals) =
             (case subst_tokens h fmts lang vals (find_tokens res) res of
                Inl e \<Rightarrow> Inl e
              | Inr out \<Rightarrow> Inr (Some (Str out)))"
    by (simp add: interpolate_def)
  have alt: "(\<exists>e. interpolate h fmts lang (Some (Str res)) (Some vals) = Inl e) \<or>
          (\<exists>out. interpolate h fmts lang (Some (Str res)) (Some vals) = Inr (Some (Str out)) \<and>
                 suffix (drop n res) out)"
    unfolding i using suf
    by (cases "subst_tokens h fmts lang vals (find_tokens res) res") auto
  have tot: "list_all (\<lambda>tok. \<not> isl (token_replacement h fmts lang vals tok)) (find_tokens res) \<Longrightarrow>
            (\<exists>out. interpolate h fmts lang (Some (Str res)) (Some vals) = Inr (Some (Str out)) \<and>
                   suffix (drop n res) out)"
  proof -
    assume "list_all (\<lambda>tok. \<not> isl (token_replacement h fmts lang vals tok)) (find_tokens res)"
    from subst_tokens_total [OF this, of res]
    obtain out where "subst_tokens h fmts lang vals (find_tokens res) res = Inr out"
      by (cases "subst_tokens h fmts lang vals (find_tokens res) res") auto
    with suf i show ?thesis by simp
  qed
  show ?thesis using toks dep suf alt tot by blast
qed

text \<open>
  A nested group is different: after the stray brace the outer brace of \<open>{{a}}\<close> raises
  the depth to 0, so the inner brace opens a token, and \<open>{a}\<close> is substituted.
\<close>

theorem stray_brace_counterexample:
  "map raw (find_tokens ''}{{a}}'') = [''{a}''] \<and>
   interpolate en_host Map.empty ''en'' (Some (Str ''}{{a}}'')) (Some (str_bag ''a'' ''X''))
     = Inr (Some (Str ''}{X}''))"
  by code_simp

theorem stray_brace_witness:
  "4 < length ''{x} } {y}'' \<and> ''{x} } {y}'' ! 4 = CHR ''}'' \<and>
   depth (scan_prefix ''{x} } {y}'' 4) \<le> 0 \<and>
   no_nested False (drop (Suc 4) ''{x} } {y}'') \<and>
   map raw (find_tokens ''{x} } {y}'') = [''{x}''] \<and>
   depth (scan_prefix ''{x} } {y}'' (Suc 4)) < 0 \<and>
   interpolate en_host Map.empty ''en'' (Some (Str ''{x} } {y}''))
     (Some (str_bag ''x'' ''X'')) = Inr (Some (Str ''X } {y}'')) \<and>
   suffix (drop 4 ''{x} } {y}'') ''X } {y}''"
proof -
  let ?vals = "str_bag ''x'' ''X''"
  have h1: "4 < length ''{x} } {y}''" by simp
  have h2: "''{x} } {y}'' ! 4 = CHR ''}''" by simp
  have h3: "depth (scan_prefix ''{x} } {y}'' 4) \<le> 0" by code_simp
  have h4: "no_nested False (drop (Suc 4) ''{x} } {y}'')" by code_simp
  note s = stray_brace_hides_flat_groups [OF h1 h2 h3 h4, of en_host Map.empty "''en''" ?vals]
  have t: "map raw (tokens (scan_prefix ''{x} } {y}'' 4)) = [''{x}'']" by code_simp
  have i: "interpolate en_host Map.empty ''en'' (Some (Str ''{x} } {y}'')) (Some ?vals)
             = Inr (Some (Str ''X } {y}''))" by code_simp
  have "suffix (drop 4 ''{x} } {y}'') ''X } {y}''"
    using s i by auto
  then show ?thesis using s h1 h2 h3 h4 t i by simp
qed


subsection \<open>The calls leave the trees of a translator as they are\<close>

lemma same_static_fields:
  assumes "same_static self self'"
  shows "config self' = config self" "language self' = language self"
    "fallbackLanguage self' = fallbackLanguage self" "scope self' = scope self"
    "plural_lang self' = plural_lang self" "formatters self' = formatters self"
    "resources self' = resources self" "devMode self' = devMode self" "useCache self' = useCache self"
    "getCacheKey self' = getCacheKey self"
proof -
  from assms have e: "self = self'\<lparr>cache := cache self, warnings := warnings self\<rparr>"
    by (simp add: same_static_def)
  show "config self' = config self" by (subst e) simp
  then show "resources self' = resources self" "devMode self' = devMode self" "useCache self' = useCache self"
    by (simp_all add: resources_def devMode_def useCache_def)
  show "language self' = language self" by (subst e) simp
  show "fallbackLanguage self' = fallbackLanguage self" by (subst e) simp
  show sc: "scope self' = scope self" by (subst e) simp
  show "plural_lang self' = plural_lang self" by (subst e) simp
  show "formatters self' = formatters self" by (subst e) simp
  show "getCacheKey self' = getCacheKey self" by (rule ext) (simp add: getCacheKey_def sc)
qed

lemma same_static_refl: "same_static self self"
  by (simp add: same_static_def)

lemma same_static_trans: "same_static a b \<Longrightarrow> same_static b c \<Longrightarrow> same_static a c"
  by (metis (mono_tags, lifting) same_static_def locl.surjective locl.update_convs(8,9))

lemma same_static_warn: "same_static self (warn msg self)"
  by (simp add: same_static_def warn_def)

lemma same_static_warn_if: "same_static self (warn_if c msg self)"
  by (simp add: warn_if_def same_static_warn same_static_refl)

lemma same_static_cache_set: "same_static self (cache_set k v self)"
  by (simp add: same_static_def cache_set_def)

lemma getCacheKey_inj: "getCacheKey self lang = getCacheKey self lang' \<Longrightarrow> lang = lang'"
  by (simp add: getCacheKey_def)

text \<open>The tree of a language is the cached tree, if there is one, and the computed tree otherwise.\<close>

lemma tree_of_eq:
  "tree_of self lang =
     (case read_prop (resources self) lang of
        Inl e \<Rightarrow> Inl e
      | Inr langObject \<Rightarrow>
          if scope self = NoScope \<or> scope self = Single [] then Inr langObject
          else (case (if useCache self then cache self (getCacheKey self lang) else None) of
                  Some hit \<Rightarrow> Inr hit
                | None \<Rightarrow> scoped_tree (resources self) (scope self) lang))"
proof (cases "read_prop (resources self) lang")
  case (Inl e)
  then show ?thesis by (simp add: tree_of_def buildTranslationObject_def)
next
  case (Inr lo)
  show ?thesis
  proof (cases "scope self = NoScope \<or> scope self = Single []")
    case True
    with Inr show ?thesis by (auto simp: tree_of_def buildTranslationObject_def)
  next
    case False
    show ?thesis
    proof (cases "if useCache self then cache self (getCacheKey self lang) else None")
      case (Some hit)
      with Inr False show ?thesis by (simp add: tree_of_def buildTranslationObject_def Let_def)
    next
      case None
      show ?thesis
      proof (cases "scope self")
        case NoScope
        with False show ?thesis by simp
      next
        case (Single s)
        with False have "s \<noteq> []" by simp
        with Inr False None Single show ?thesis
          by (simp add: tree_of_def buildTranslationObject_def scoped_tree_def Let_def
                   split: sum.splits)
      next
        case (Multi ms)
        with Inr False None show ?thesis
          by (simp add: tree_of_def buildTranslationObject_def scoped_tree_def Let_def
                   split: sum.splits)
      qed
    qed
  qed
qed

lemma tree_of_cong:
  assumes "same_static self self'" and "cache self' = cache self"
  shows "tree_of self' lang = tree_of self lang"
  unfolding tree_of_eq same_static_fields [OF assms(1)] assms(2) ..

lemma tree_of_cache_set:
  assumes "tree_of self lang = Inr v"
  shows "tree_of (cache_set (getCacheKey self lang) v self) l = tree_of self l"
proof (cases "useCache self")
  case False
  then show ?thesis by (simp add: cache_set_def)
next
  case True
  let ?s = "cache_set (getCacheKey self lang) v self"
  note f = same_static_fields [OF same_static_cache_set [of self "getCacheKey self lang" v]]
  have c: "cache ?s = (cache self)(getCacheKey self lang \<mapsto> v)"
    using True by (simp add: cache_set_def)
  show ?thesis
  proof (cases "l = lang")
    case False
    then have "getCacheKey self l \<noteq> getCacheKey self lang" using getCacheKey_inj by blast
    then show ?thesis unfolding tree_of_eq f c by (auto split: sum.splits)
  next
    case same: True
    show ?thesis
    proof (cases "read_prop (resources self) lang")
      case (Inl e)
      with assms show ?thesis by (simp add: tree_of_eq)
    next
      case (Inr lo)
      show ?thesis
      proof (cases "scope self = NoScope \<or> scope self = Single []")
        case triv: True
        have "tree_of ?s lang = Inr lo" unfolding tree_of_eq f using Inr triv by auto
        moreover have "tree_of self lang = Inr lo" unfolding tree_of_eq using Inr triv by auto
        ultimately show ?thesis using same by simp
      next
        case False
        then have "tree_of ?s lang = Inr v" unfolding tree_of_eq f c using Inr True by simp
        with assms same show ?thesis by simp
      qed
    qed
  qed
qed

lemma evolves_refl: "evolves self self"
  by (simp add: evolves_def same_static_refl quiet_def)

lemma evolves_trans:
  assumes "evolves a b" and "evolves b c"
  shows "evolves a c"
proof -
  have d: "devMode b = devMode a" using assms(1) by (simp add: evolves_def same_static_fields(8))
  have "same_static a c" using assms same_static_trans by (auto simp: evolves_def)
  moreover have "quiet a c" using assms d by (auto simp: evolves_def quiet_def)
  moreover have "prefix (warnings a) (warnings c)"
    using assms by (auto simp: evolves_def intro: prefix_order.trans)
  moreover have "\<forall>lang. tree_of c lang = tree_of a lang" using assms by (simp add: evolves_def)
  ultimately show ?thesis by (simp add: evolves_def)
qed

lemma evolves_static: "evolves self self' \<Longrightarrow> same_static self self'"
  by (simp add: evolves_def)

lemmas evolves_fields = same_static_fields [OF evolves_static]

lemma evolves_tree: "evolves self self' \<Longrightarrow> tree_of self' lang = tree_of self lang"
  by (simp add: evolves_def)

lemma evolves_warn_if: "evolves self self1 \<Longrightarrow> evolves self (warn_if c msg self1)"
proof -
  assume e: "evolves self self1"
  then have d: "devMode self1 = devMode self" by (simp add: evolves_def same_static_fields(8))
  have s1: "same_static self1 (warn_if c msg self1)" by (rule same_static_warn_if)
  have "cache (warn_if c msg self1) = cache self1" by (simp add: warn_if_def warn_def)
  from tree_of_cong [OF s1 this] e
  have "\<forall>lang. tree_of (warn_if c msg self1) lang = tree_of self lang" by (simp add: evolves_def)
  moreover from e s1 have "same_static self (warn_if c msg self1)"
    using same_static_trans by (auto simp: evolves_def)
  moreover have "quiet self (warn_if c msg self1)" using e d by (auto simp: quiet_def warn_if_def evolves_def)
  moreover have "prefix (warnings self) (warnings (warn_if c msg self1))"
    using e by (auto simp: warn_if_def warn_def evolves_def prefix_def)
  ultimately show ?thesis by (simp add: evolves_def)
qed

lemma evolves_cache_set:
  assumes "tree_of self lang = Inr v"
  shows "evolves self (cache_set (getCacheKey self lang) v self)"
proof -
  have "quiet self (cache_set (getCacheKey self lang) v self)"
    by (simp add: quiet_def cache_set_def)
  moreover have "prefix (warnings self) (warnings (cache_set (getCacheKey self lang) v self))"
    by (simp add: cache_set_def)
  ultimately show ?thesis
    using tree_of_cache_set [OF assms] same_static_cache_set unfolding evolves_def by blast
qed

lemma build_stable:
  "\<exists>self'. buildTranslationObject self lang = (tree_of self lang, self') \<and> evolves self self'"
proof -
  obtain r s' where b: "buildTranslationObject self lang = (r, s')"
    by (cases "buildTranslationObject self lang")
  then have r: "r = tree_of self lang" by (simp add: tree_of_def)
  let ?key = "getCacheKey self lang"
  have "s' = self \<or>
        (\<exists>v. r = Inr v \<and> s' = cache_set ?key v self) \<or>
        (\<exists>v c msg. r = Inr v \<and> s' = warn_if c msg (cache_set ?key v self))"
  proof (cases "read_prop (resources self) lang")
    case (Inl e)
    with b show ?thesis by (simp add: buildTranslationObject_def)
  next
    case (Inr lo)
    show ?thesis
    proof (cases "scope self = NoScope \<or> scope self = Single []")
      case True
      with Inr b show ?thesis by (auto simp: buildTranslationObject_def)
    next
      case False
      show ?thesis
      proof (cases "if useCache self then cache self ?key else None")
        case (Some hit)
        with Inr False b show ?thesis by (simp add: buildTranslationObject_def Let_def)
      next
        case None
        show ?thesis
        proof (cases "scope self")
          case NoScope
          with False show ?thesis by simp
        next
          case (Single s)
          show ?thesis
          proof (cases "walk (split_on CHR ''.'' s) lo")
            case (Inl e)
            with Inr False None Single b show ?thesis
              by (simp add: buildTranslationObject_def Let_def)
          next
            case w: (Inr result)
            with Inr False None Single b have
              "r = Inr result"
              "s' = warn_if (result = None)
                      (missing_namespace_msg s (language (cache_set ?key result self)))
                      (cache_set ?key result self)"
              by (simp_all add: buildTranslationObject_def Let_def)
            then show ?thesis by blast
          qed
        next
          case (Multi ms)
          show ?thesis
          proof (cases "combine ms lo (Fresh [])")
            case (Inl e)
            with Inr False None Multi b show ?thesis
              by (simp add: buildTranslationObject_def Let_def)
          next
            case c: (Inr combined)
            with Inr False None Multi b have
              "r = Inr (Some (to_node combined))"
              "s' = cache_set ?key (Some (to_node combined)) self"
              by (simp_all add: buildTranslationObject_def Let_def)
            then show ?thesis by blast
          qed
        qed
      qed
    qed
  qed
  then have "evolves self s'"
  proof (elim disjE exE conjE)
    assume "s' = self"
    then show ?thesis by (simp add: evolves_refl)
  next
    fix v assume "r = Inr v" "s' = cache_set ?key v self"
    with r evolves_cache_set [of self lang v] show ?thesis by simp
  next
    fix v c msg assume "r = Inr v" "s' = warn_if c msg (cache_set ?key v self)"
    with r evolves_warn_if [OF evolves_cache_set [of self lang v]] show ?thesis by simp
  qed
  with b r show ?thesis by blast
qed

lemma evolves_lookup:
  assumes "evolves self self'"
  shows "lookup self' key = lookup self key"
  unfolding lookup_def evolves_fields(2,3) [OF assms] evolves_tree [OF assms] ..

lemma lookup_stable_base:
  assumes "base = None \<or> tree_of self (language self) = Inr base"
  shows "\<exists>self'. lookupWithFallback self key base = (lookup self key, self') \<and> evolves self self'"
proof -
  let ?keys = "split_on CHR ''.'' key"
  let ?first = "case base of Some b \<Rightarrow> (Inr (Some b), self)
                | None \<Rightarrow> buildTranslationObject self (language self)"
  obtain s1 where first: "?first = (tree_of self (language self), s1)"
    and e1: "evolves self s1"
  proof (cases base)
    case None
    with build_stable [of self "language self"] that show ?thesis by auto
  next
    case (Some b)
    with assms have "?first = (tree_of self (language self), self)" by simp
    with evolves_refl that show ?thesis by blast
  qed
  show ?thesis
  proof (cases "tree_of self (language self)")
    case (Inl e)
    with first e1 show ?thesis
      by (auto simp: lookupWithFallback_def lookup_def Let_def)
  next
    case (Inr tree)
    show ?thesis
    proof (cases "findTranslation ?keys tree")
      case err: (Inl e)
      with Inr first e1 show ?thesis
        by (auto simp: lookupWithFallback_def lookup_def Let_def)
    next
      case res: (Inr result)
      let ?s2 = "warn_if (result = None) (missing_key_msg key (language s1)) s1"
      have e2: "evolves self ?s2" using evolves_warn_if [OF e1] .
      show ?thesis
      proof (cases result)
        case (Some v)
        with Inr res first e2 show ?thesis
          by (auto simp: lookupWithFallback_def lookup_def Let_def)
      next
        case None
        have f2: "fallbackLanguage ?s2 = fallbackLanguage self"
          using evolves_fields [OF e2] by simp
        obtain s3 where b3: "buildTranslationObject ?s2 (fallbackLanguage ?s2) =
              (tree_of self (fallbackLanguage self), s3)"
          and e3: "evolves ?s2 s3"
          using build_stable [of ?s2 "fallbackLanguage ?s2"] f2 evolves_tree [OF e2] by auto
        have e3': "evolves self s3" using evolves_trans [OF e2 e3] .
        show ?thesis
        proof (cases "tree_of self (fallbackLanguage self)")
          case (Inl e)
          with Inr res None first b3 e3' show ?thesis
            by (auto simp: lookupWithFallback_def lookup_def Let_def)
        next
          case fb: (Inr fbBase)
          show ?thesis
          proof (cases "findTranslation ?keys fbBase")
            case (Inl e)
            with Inr res None first b3 fb e3' show ?thesis
              by (auto simp: lookupWithFallback_def lookup_def Let_def)
          next
            case r2: (Inr result')
            let ?s4 = "warn_if (result' = None) (missing_key_msg key (fallbackLanguage s3)) s3"
            have "evolves self ?s4" using evolves_warn_if [OF e3'] .
            with Inr res None first b3 fb r2 show ?thesis
              by (auto simp: lookupWithFallback_def lookup_def Let_def)
          qed
        qed
      qed
    qed
  qed
qed

lemma lookup_stable:
  "\<exists>self'. lookupWithFallback self key None = (lookup self key, self') \<and> evolves self self'"
  using lookup_stable_base [of None self] by simp

lemma get_stable:
  "\<exists>self'. get self key =
           (case key of
              None \<Rightarrow> tree_of self (language self)
            | Some k \<Rightarrow> if k = [] then tree_of self (language self) else lookup self k, self') \<and>
         evolves self self'"
proof -
  obtain s1 where b: "buildTranslationObject self (language self) =
        (tree_of self (language self), s1)" and e1: "evolves self s1"
    using build_stable by blast
  show ?thesis
  proof (cases "tree_of self (language self)")
    case (Inl e)
    then have "\<And>k. lookup self k = Inl e" by (simp add: lookup_def)
    with Inl b e1 show ?thesis by (auto simp: get_def split: option.splits)
  next
    case (Inr base)
    show ?thesis
    proof (cases "key = None \<or> key = Some []")
      case True
      with Inr b e1 show ?thesis by (auto simp: get_def)
    next
      case False
      then obtain k where k: "key = Some k" "k \<noteq> []" by (cases key) auto
      have "base = None \<or> tree_of s1 (language s1) = Inr base"
        using Inr evolves_fields [OF e1] evolves_tree [OF e1] by simp
      from lookup_stable_base [OF this, of k]
      obtain s2 where l: "lookupWithFallback s1 k base = (lookup s1 k, s2)" and e2: "evolves s1 s2"
        by blast
      have "evolves self s2" using evolves_trans [OF e1 e2] .
      with Inr b k l evolves_lookup [OF e1] show ?thesis by (auto simp: get_def)
    qed
  qed
qed

lemma interp_interpolated:
  "interp h self (Some v) (Some vals) = map_sum id Some (interpolated h self v vals)"
  by (cases v) (simp_all add: interp_def interpolate_def interpolated_def split: sum.splits)

lemma evolves_interp: "evolves self self' \<Longrightarrow> interp h self' r values = interp h self r values"
  by (simp add: interp_def evolves_fields)

lemma evolves_interpolated:
  "evolves self self' \<Longrightarrow> interpolated h self' v vals = interpolated h self v vals"
  by (cases v) (simp_all add: interpolated_def evolves_fields)

lemma finished_interp:
  "finished fmts key (interp h self (Some v) (Some vals)) fmt =
     and_then (interpolated h self v vals) (\<lambda>v. formatted fmts v fmt)"
  by (simp add: finished_def and_then_def interp_interpolated split: sum.splits)

lemma finished_None: "finished fmts key (Inr None) fmt = formatted fmts (Str key) fmt"
  by (simp add: finished_def and_then_def)

lemma applyFormat_stable:
  "\<exists>self'. applyFormat self v f args =
            (case js_read (formatters self) f of
               Inl e \<Rightarrow> Inl e
             | Inr None \<Rightarrow> Inr v
             | Inr (Some fn) \<Rightarrow> Inr (Str (fn (Node v) args)), self') \<and>
          evolves self self'"
proof (cases "js_read (formatters self) f")
  case (Inl e)
  then show ?thesis using evolves_refl by (auto simp: applyFormat_def)
next
  case (Inr r)
  show ?thesis
  proof (cases r)
    case None
    with Inr show ?thesis
      using evolves_warn_if [OF evolves_refl] by (auto simp: applyFormat_def)
  next
    case (Some fn)
    with Inr show ?thesis using evolves_refl by (auto simp: applyFormat_def)
  qed
qed

lemma finish_stable:
  "\<exists>self'. finish self key i fmt = (finished (formatters self) key i fmt, self') \<and>
          evolves self self'"
proof (cases i)
  case (Inl e)
  then show ?thesis using evolves_refl by (auto simp: finish_def finished_def and_then_def)
next
  case (Inr r)
  let ?v = "case r of None \<Rightarrow> Str key | Some v \<Rightarrow> v"
  show ?thesis
  proof (cases fmt)
    case None
    with Inr show ?thesis
      using evolves_refl by (auto simp: finish_def finished_def and_then_def formatted_def)
  next
    case (Some fa)
    obtain f args where fa: "fa = (f, args)" by (cases fa)
    show ?thesis
    proof (cases "f = []")
      case True
      with Inr Some fa show ?thesis
        using evolves_refl by (auto simp: finish_def finished_def and_then_def formatted_def)
    next
      case False
      with Inr Some fa applyFormat_stable [of self ?v f args] show ?thesis
        by (auto simp: finish_def finished_def and_then_def formatted_def Let_def)
    qed
  qed
qed

lemma chain_stable:
  "\<exists>self'. or_else (lookupWithFallback self k1 None)
                    (\<lambda>s. or_else (lookupWithFallback s k2 None)
                           (\<lambda>s'. lookupWithFallback s' k3 None)) =
            (first_hit [lookup self k1, lookup self k2, lookup self k3], self') \<and>
          evolves self self'"
proof -
  obtain s1 where l1: "lookupWithFallback self k1 None = (lookup self k1, s1)" and e1: "evolves self s1"
    using lookup_stable by blast
  obtain s2 where l2: "lookupWithFallback s1 k2 None = (lookup self k2, s2)" and e2: "evolves s1 s2"
    using lookup_stable [of s1 k2] evolves_lookup [OF e1] by auto
  have e12: "evolves self s2" using evolves_trans [OF e1 e2] .
  obtain s3 where l3: "lookupWithFallback s2 k3 None = (lookup self k3, s3)" and e3: "evolves s2 s3"
    using lookup_stable [of s2 k3] evolves_lookup [OF e12] by auto
  have e123: "evolves self s3" using evolves_trans [OF e12 e3] .
  show ?thesis
  proof (cases "lookup self k1")
    case (Inl e)
    with l1 e1 show ?thesis by (auto simp: or_else_def)
  next
    case (Inr r1)
    show ?thesis
    proof (cases r1)
      case (Some v)
      with Inr l1 e1 show ?thesis by (auto simp: or_else_def)
    next
      case None
      note n1 = this
      show ?thesis
      proof (cases "lookup self k2")
        case (Inl e)
        with Inr n1 l1 l2 e12 show ?thesis by (auto simp: or_else_def)
      next
        case r2: (Inr r2)
        show ?thesis
        proof (cases r2)
          case (Some v)
          with Inr n1 r2 l1 l2 e12 show ?thesis by (auto simp: or_else_def)
        next
          case None
          with Inr n1 r2 l1 l2 l3 e123 show ?thesis
            by (auto simp: or_else_def split: sum.splits option.splits)
        qed
      qed
    qed
  qed
qed

lemma checkPlural_stable:
  "\<exists>self'. checkPlural h self key values = (implicit_plural h self key values, self') \<and>
           evolves self self'"
proof (cases "values")
  case None
  then show ?thesis
    using evolves_refl by (auto simp: checkPlural_def implicit_plural_def)
next
  case (Some vals)
  show ?thesis
  proof (cases "vals ''count'' \<noteq> Undefined \<and> \<not> plural_suffixed key")
    case False
    with Some show ?thesis
      using evolves_refl by (auto simp: checkPlural_def implicit_plural_def)
  next
    case True
    let ?pk = "key @ ''_'' @ plural_select h (plural_lang self) (vals ''count'')"
    obtain s1 where l: "lookupWithFallback self ?pk None = (lookup self ?pk, s1)"
      and e: "evolves self s1"
      using lookup_stable by blast
    show ?thesis
    proof (cases "lookup self ?pk")
      case (Inl err)
      with Some True l e show ?thesis
        by (auto simp: checkPlural_def implicit_plural_def and_then_def Let_def)
    next
      case (Inr r)
      with Some True l e evolves_interp [OF e] show ?thesis
        by (auto simp: checkPlural_def implicit_plural_def and_then_def Let_def)
    qed
  qed
qed

lemma t_stable:
  assumes "key \<noteq> []"
  shows "\<exists>self'. t h self (Some key) values fmt =
           (case implicit_plural h self key values of
              Inl e \<Rightarrow> Inl e
            | Inr (Some r) \<Rightarrow> Inr (Some r)
            | Inr None \<Rightarrow>
                (case lookup self key of
                   Inl e \<Rightarrow> Inl e
                 | Inr r \<Rightarrow>
                     map_sum id Some
                       (finished (formatters self) key (interp h self r values) fmt)), self') \<and>
           evolves self self'"
proof -
  obtain s1 where c: "checkPlural h self key values = (implicit_plural h self key values, s1)"
    and e1: "evolves self s1"
    using checkPlural_stable by blast
  show ?thesis
  proof (cases "implicit_plural h self key values")
    case (Inl e)
    with c e1 show ?thesis by (auto simp: t_nonempty [OF assms])
  next
    case (Inr p)
    show ?thesis
    proof (cases p)
      case (Some r)
      with Inr c e1 show ?thesis by (auto simp: t_nonempty [OF assms])
    next
      case None
      obtain s2 where l: "lookupWithFallback s1 key None = (lookup self key, s2)"
        and e2: "evolves s1 s2"
        using lookup_stable [of s1 key] evolves_lookup [OF e1] by auto
      have e12: "evolves self s2" using evolves_trans [OF e1 e2] .
      show ?thesis
      proof (cases "lookup self key")
        case (Inl e)
        with Inr None c l e12 show ?thesis by (auto simp: t_nonempty [OF assms])
      next
        case r: (Inr r)
        let ?i = "interp h self r values"
        obtain s3 where f: "finish s2 key ?i fmt = (finished (formatters self) key ?i fmt, s3)"
          and e3: "evolves s2 s3"
          using finish_stable [of s2 key ?i fmt] evolves_fields(6) [OF e12] by auto
        have "evolves self s3" using evolves_trans [OF e12 e3] .
        with Inr None c l r f evolves_interp [OF e12] show ?thesis
          by (cases "finished (formatters self) key ?i fmt") (auto simp: t_nonempty [OF assms])
      qed
    qed
  qed
qed


lemma finish_fst:
  assumes "evolves self s"
  shows "fst (finish s key i fmt) = finished (formatters self) key i fmt"
    and "evolves self (snd (finish s key i fmt))"
proof -
  obtain s' where f: "finish s key i fmt = (finished (formatters s) key i fmt, s')"
    and e: "evolves s s'"
    using finish_stable by blast
  from f show "fst (finish s key i fmt) = finished (formatters self) key i fmt"
    by (simp add: evolves_fields(6) [OF assms])
  from f evolves_trans [OF assms e] show "evolves self (snd (finish s key i fmt))" by simp
qed

lemma warned:
  assumes "evolves s s'" and "msg \<in> set (warnings s)"
  shows "msg \<in> set (warnings s')"
proof -
  from assms(1) have "prefix (warnings s) (warnings s')" by (simp add: evolves_def)
  with assms(2) show ?thesis by (auto simp: prefix_def)
qed

text \<open>The result of \<open>plural\<close> in terms of \<open>lookup\<close>, and the warning of a missing plural form.\<close>

lemma plural_pure:
  "fst (plural h self key vals fmt) =
     (let category = plural_select h (plural_lang self) (vals ''count'')
      in (case lookup self key of
            Inl e \<Rightarrow> Inl e
          | Inr (Some (Obj kvs)) \<Rightarrow>
              (case read_prop kvs category of
                 Inl e \<Rightarrow> Inl e
               | Inr (Some form) \<Rightarrow>
                   and_then (interpolated h self form vals)
                     (\<lambda>v. formatted (formatters self) v fmt)
               | Inr None \<Rightarrow>
                   (case map_of kvs ''other'' of
                      Some form \<Rightarrow>
                        and_then (interpolated h self form vals)
                          (\<lambda>v. formatted (formatters self) v fmt)
                    | None \<Rightarrow> formatted (formatters self) (Str key) fmt))
          | Inr baseValue \<Rightarrow>
              (case first_hit [lookup self (key @ ''_'' @ category),
                               lookup self (key @ ''_other''),
                               lookup self key] of
                 Inl e \<Rightarrow> Inl e
               | Inr None \<Rightarrow> formatted (formatters self) (Str key) fmt
               | Inr (Some hit) \<Rightarrow>
                   and_then (interpolated h self hit vals)
                     (\<lambda>v. formatted (formatters self) v fmt)))) \<and>
   (\<forall>kvs. devMode self \<and> lookup self key = Inr (Some (Obj kvs)) \<and>
          read_prop kvs (plural_select h (plural_lang self) (vals ''count'')) = Inr None \<longrightarrow>
          missing_plural_msg key (language self) \<in>
            set (warnings (snd (plural h self key vals fmt)))) \<and>
   evolves self (snd (plural h self key vals fmt))"
proof -
  let ?cat = "plural_select h (plural_lang self) (vals ''count'')"
  let ?F = "formatters self"
  obtain s1 where l1: "lookupWithFallback self key None = (lookup self key, s1)"
    and e1: "evolves self s1"
    using lookup_stable by blast
  note f1 = evolves_fields [OF e1]
  show ?thesis
  proof (cases "lookup self key")
    case (Inl e)
    with l1 e1 show ?thesis by (simp add: plural_def Let_def)
  next
    case (Inr baseValue)
    show ?thesis
    proof (cases "\<exists>kvs. baseValue = Some (Obj kvs)")
      case True
      then obtain kvs where bv: "baseValue = Some (Obj kvs)" by blast
      show ?thesis
      proof (cases "read_prop kvs ?cat")
        case (Inl e)
        with Inr bv l1 e1 f1(5) show ?thesis by (simp add: plural_def Let_def)
      next
        case rp: (Inr hit)
        show ?thesis
        proof (cases hit)
          case (Some form)
          let ?i = "interp h s1 (Some form) (Some vals)"
          have pl: "plural h self key vals fmt = finish s1 key ?i fmt"
            using Inr bv rp Some l1 f1(5) by (simp add: plural_def Let_def)
          have "fst (plural h self key vals fmt) =
                  and_then (interpolated h self form vals) (\<lambda>v. formatted ?F v fmt)"
            unfolding pl finish_fst(1) [OF e1] evolves_interp [OF e1] finished_interp ..
          moreover have "evolves self (snd (plural h self key vals fmt))"
            unfolding pl by (rule finish_fst(2) [OF e1])
          ultimately show ?thesis using Inr bv rp Some by (simp add: Let_def)
        next
          case None
          let ?s2 = "warn_if True (missing_plural_msg key (language s1)) s1"
          have e2: "evolves self ?s2" using evolves_warn_if [OF e1] .
          let ?i = "case map_of kvs ''other'' of
                      Some form \<Rightarrow> interp h ?s2 (Some form) (Some vals)
                    | None \<Rightarrow> Inr None"
          have pl: "plural h self key vals fmt = finish ?s2 key ?i fmt"
            using Inr bv rp None l1 f1(5)
            by (simp add: plural_def Let_def split: option.splits del: warn_if_def)
          have i: "finished ?F key ?i fmt =
                     (case map_of kvs ''other'' of
                        Some form \<Rightarrow>
                          and_then (interpolated h self form vals) (\<lambda>v. formatted ?F v fmt)
                      | None \<Rightarrow> formatted ?F (Str key) fmt)"
            by (simp add: evolves_interp [OF e2] finished_interp finished_None split: option.splits)
          have val: "fst (plural h self key vals fmt) =
                     (case map_of kvs ''other'' of
                        Some form \<Rightarrow>
                          and_then (interpolated h self form vals) (\<lambda>v. formatted ?F v fmt)
                      | None \<Rightarrow> formatted ?F (Str key) fmt)"
            unfolding pl finish_fst(1) [OF e2] i ..
          have ev: "evolves self (snd (plural h self key vals fmt))"
            unfolding pl by (rule finish_fst(2) [OF e2])
          have "devMode self \<Longrightarrow>
                missing_plural_msg key (language self) \<in>
                  set (warnings (snd (plural h self key vals fmt)))"
          proof -
            assume d: "devMode self"
            then have "missing_plural_msg key (language self) \<in> set (warnings ?s2)"
              using f1 by (simp add: warn_if_def warn_def)
            moreover have "evolves ?s2 (snd (finish ?s2 key ?i fmt))"
              by (rule finish_fst(2) [OF evolves_refl])
            ultimately show ?thesis unfolding pl by (rule warned [rotated])
          qed
          with val ev Inr bv rp None show ?thesis by (simp add: Let_def)
        qed
      qed
    next
      case False
      define fh where "fh = first_hit [lookup self (key @ ''_'' @ ?cat),
                                       lookup self (key @ ''_other''), lookup self key]"
      obtain s2 where ch: "or_else (lookupWithFallback s1 (key @ ''_'' @ ?cat) None)
                    (\<lambda>s. or_else (lookupWithFallback s (key @ ''_other'') None)
                           (\<lambda>s'. lookupWithFallback s' key None)) = (fh, s2)"
        and e2: "evolves s1 s2"
        using chain_stable [of s1 "key @ ''_'' @ ?cat" "key @ ''_other''" key]
          evolves_lookup [OF e1] unfolding fh_def by auto
      have e12: "evolves self s2" using evolves_trans [OF e1 e2] .
      have nobj: "\<And>kvs. baseValue \<noteq> Some (Obj kvs)" using False by blast
      have pl: "plural h self key vals fmt =
          (case fh of
             Inl e \<Rightarrow> (Inl e, s2)
           | Inr result \<Rightarrow> finish s2 key (interp h s2 result (Some vals)) fmt)"
      proof (cases baseValue)
        case None
        with Inr l1 ch f1(5) show ?thesis
          by (auto simp: plural_def Let_def split: sum.splits prod.splits)
      next
        case (Some n)
        with nobj obtain str where "n = Str str" by (cases n) auto
        with Some Inr l1 ch f1(5) show ?thesis
          by (auto simp: plural_def Let_def split: sum.splits prod.splits)
      qed
      have val: "fst (plural h self key vals fmt) =
          (case fh of
             Inl e \<Rightarrow> Inl e
           | Inr None \<Rightarrow> formatted ?F (Str key) fmt
           | Inr (Some hit) \<Rightarrow>
               and_then (interpolated h self hit vals) (\<lambda>v. formatted ?F v fmt))"
      proof (cases fh)
        case (Inl e)
        with pl show ?thesis by simp
      next
        case r: (Inr result)
        show ?thesis
        proof (cases result)
          case None
          with r pl show ?thesis
            by (simp add: finish_fst(1) [OF e12] interp_None finished_None)
        next
          case (Some hit)
          with r pl show ?thesis
            by (simp add: finish_fst(1) [OF e12] evolves_interp [OF e12] finished_interp)
        qed
      qed
      have ev: "evolves self (snd (plural h self key vals fmt))"
        unfolding pl using e12 finish_fst(2) [OF e12] by (cases fh) simp_all
      have "(case lookup self key of
               Inl e \<Rightarrow> Inl e
             | Inr (Some (Obj kvs)) \<Rightarrow>
                 (case read_prop kvs ?cat of
                 Inl e \<Rightarrow> Inl e
               | Inr (Some form) \<Rightarrow>
                   and_then (interpolated h self form vals)
                     (\<lambda>v. formatted (formatters self) v fmt)
               | Inr None \<Rightarrow>
                   (case map_of kvs ''other'' of
                      Some form \<Rightarrow>
                        and_then (interpolated h self form vals)
                          (\<lambda>v. formatted (formatters self) v fmt)
                    | None \<Rightarrow> formatted (formatters self) (Str key) fmt))
             | Inr baseValue \<Rightarrow>
                 (case fh of
                    Inl e \<Rightarrow> Inl e
                  | Inr None \<Rightarrow> formatted ?F (Str key) fmt
                  | Inr (Some hit) \<Rightarrow>
                      and_then (interpolated h self hit vals) (\<lambda>v. formatted ?F v fmt))) =
            (case fh of
                    Inl e \<Rightarrow> Inl e
                  | Inr None \<Rightarrow> formatted ?F (Str key) fmt
                  | Inr (Some hit) \<Rightarrow>
                      and_then (interpolated h self hit vals) (\<lambda>v. formatted ?F v fmt))"
        using Inr nobj by (cases baseValue) (auto split: node.splits)
      with val have "fst (plural h self key vals fmt) =
            (case lookup self key of
               Inl e \<Rightarrow> Inl e
             | Inr (Some (Obj kvs)) \<Rightarrow>
                 (case read_prop kvs ?cat of
                 Inl e \<Rightarrow> Inl e
               | Inr (Some form) \<Rightarrow>
                   and_then (interpolated h self form vals)
                     (\<lambda>v. formatted (formatters self) v fmt)
               | Inr None \<Rightarrow>
                   (case map_of kvs ''other'' of
                      Some form \<Rightarrow>
                        and_then (interpolated h self form vals)
                          (\<lambda>v. formatted (formatters self) v fmt)
                    | None \<Rightarrow> formatted (formatters self) (Str key) fmt))
             | Inr baseValue \<Rightarrow>
                 (case fh of
                    Inl e \<Rightarrow> Inl e
                  | Inr None \<Rightarrow> formatted ?F (Str key) fmt
                  | Inr (Some hit) \<Rightarrow>
                      and_then (interpolated h self hit vals) (\<lambda>v. formatted ?F v fmt)))"
        by simp
      then show ?thesis using Inr nobj ev unfolding fh_def Let_def by simp
    qed
  qed
qed

subsection \<open>\<open>plural\<close>\<close>

text \<open>
  C4, as the code has it. \<open>plural(key, values)\<close> selects the plural category of
  \<open>values.count\<close> and looks \<open>key\<close> up through the fallback chain, in the trees the translator
  works with. When that yields an object, the form of the category is interpolated when
  the object has it, otherwise the form \<open>other\<close> is interpolated, otherwise the bare key is
  taken uninterpolated; in the last two cases dev mode prints a warning. When it does not
  yield an object, the keys \<open>key_category\<close>, \<open>key_other\<close> and \<open>key\<close> are tried in this
  order, each through the whole fallback chain, and the first hit is interpolated with
  \<open>values\<close>; when nothing is found the bare key is taken as it is, not interpolated. The
  optional explicit formatter is applied last. What a lookup, the interpolation or the
  formatter raises is passed on.
\<close>

theorem plural_resolution:
  "fst (plural h self key vals fmt) =
     (let category = plural_select h (plural_lang self) (vals ''count'')
      in (case lookup self key of
            Inl e \<Rightarrow> Inl e
          | Inr (Some (Obj kvs)) \<Rightarrow>
              (case read_prop kvs category of
                 Inl e \<Rightarrow> Inl e
               | Inr (Some form) \<Rightarrow>
                   and_then (interpolated h self form vals)
                     (\<lambda>v. formatted (formatters self) v fmt)
               | Inr None \<Rightarrow>
                   (case map_of kvs ''other'' of
                      Some form \<Rightarrow>
                        and_then (interpolated h self form vals)
                          (\<lambda>v. formatted (formatters self) v fmt)
                    | None \<Rightarrow> formatted (formatters self) (Str key) fmt))
          | Inr baseValue \<Rightarrow>
              (case first_hit [lookup self (key @ ''_'' @ category),
                               lookup self (key @ ''_other''),
                               lookup self key] of
                 Inl e \<Rightarrow> Inl e
               | Inr None \<Rightarrow> formatted (formatters self) (Str key) fmt
               | Inr (Some hit) \<Rightarrow>
                   and_then (interpolated h self hit vals)
                     (\<lambda>v. formatted (formatters self) v fmt)))) \<and>
   (\<forall>kvs. devMode self \<and> lookup self key = Inr (Some (Obj kvs)) \<and>
          read_prop kvs (plural_select h (plural_lang self) (vals ''count'')) = Inr None \<longrightarrow>
          missing_plural_msg key (language self) \<in>
            set (warnings (snd (plural h self key vals fmt))))"
  using plural_pure [of h self key vals fmt] by blast

text \<open>
  The key \<open>n{count}\<close> is found under no name, so \<open>plural\<close> returns it as it is; interpolated
  with \<open>count = 5\<close> it would read \<open>n5\<close>.
\<close>

theorem plural_resolution_counterexample:
  "lookup (mk_locl example_resources ''en'' NoScope False True) ''n{count}_other'' = Inr None \<and>
   lookup (mk_locl example_resources ''en'' NoScope False True) ''n{count}'' = Inr None \<and>
   fst (plural en_host (mk_locl example_resources ''en'' NoScope False True) ''n{count}''
          (count_bag 5) None) = Inr (Str ''n{count}'') \<and>
   interpolated en_host (mk_locl example_resources ''en'' NoScope False True) (Str ''n{count}'')
     (count_bag 5) = Inr (Str ''n5'')"
  by code_simp

theorem plural_resolution_witness:
  "fst (plural en_host (mk_locl example_resources ''en'' NoScope False True) ''messages''
          (count_bag 5) None) = Inr (Str ''You have 5 messages.'') \<and>
   fst (plural en_host (mk_locl example_resources ''en'' NoScope False True) ''item''
          (count_bag 1) None) = Inr (Str ''one item'') \<and>
   fst (plural en_host (mk_locl example_resources ''en'' NoScope True True) ''things''
          (count_bag 1) None) = Inr (Str ''1 things'') \<and>
   missing_plural_msg ''things'' ''en'' \<in>
     set (warnings (snd (plural en_host (mk_locl example_resources ''en'' NoScope True True)
                           ''things'' (count_bag 1) None)))"
proof -
  let ?L = "mk_locl example_resources ''en'' NoScope False True"
  let ?D = "mk_locl example_resources ''en'' NoScope True True"
  note a = plural_resolution [of en_host ?L "''messages''" "count_bag 5" None, THEN conjunct1]
  note b = plural_resolution [of en_host ?L "''item''" "count_bag 1" None, THEN conjunct1]
  note c = plural_resolution [of en_host ?D "''things''" "count_bag 1" None]
  have 1: "fst (plural en_host ?L ''messages'' (count_bag 5) None) = Inr (Str ''You have 5 messages.'')"
    unfolding a by code_simp
  have 2: "fst (plural en_host ?L ''item'' (count_bag 1) None) = Inr (Str ''one item'')"
    unfolding b by code_simp
  have 3: "fst (plural en_host ?D ''things'' (count_bag 1) None) = Inr (Str ''1 things'')"
    unfolding c [THEN conjunct1] by code_simp
  have d: "devMode ?D" by (simp add: devMode_def mk_locl_def mk_config_def)
  have l: "lookup ?D ''things'' = Inr (Some (Obj [(''other'', Str ''{count} things'')]))"
    by code_simp
  have m: "read_prop [(''other'', Str ''{count} things'')]
             (plural_select en_host (plural_lang ?D) (count_bag 1 ''count'')) = Inr None"
    by code_simp
  have lang: "language ?D = ''en''" by (simp add: mk_locl_def)
  have 4: "missing_plural_msg ''things'' ''en'' \<in>
     set (warnings (snd (plural en_host ?D ''things'' (count_bag 1) None)))"
    using c [THEN conjunct2] d l m lang by metis
  show ?thesis using 1 2 3 4 by blast
qed


subsection \<open>Soft misses\<close>

lemma quiet_warnings: "evolves self s \<Longrightarrow> \<not> devMode self \<Longrightarrow> warnings s = warnings self"
  by (simp add: evolves_def quiet_def)

lemma missing_scope: 
  assumes "tree_of self (language self) = Inr None"
    and "tree_of self (fallbackLanguage self) = Inr None"
  shows "lookup self k = Inr None"
  by (simp add: lookup_def assms findTranslation_def)

text \<open>
  C5, as the code has it. Let a non-empty key resolve to nothing: the trees of the current
  and of the fallback language are obtained without error, and \<open>findTranslation\<close> finds the
  key in neither (as is the case for every key when the scope resolves to nothing in both
  languages). Then \<open>t(key)\<close> returns the key itself, also with values that have no \<open>count\<close>
  and also when an explicit formatter is named that the registry does not have;
  \<open>get(key)\<close> returns \<open>undefined\<close>; \<open>format\<close> with a formatter the registry does not have
  returns its input value. With \<open>devMode = false\<close> neither \<open>t\<close>, \<open>get\<close>, \<open>plural\<close> nor
  \<open>format\<close> prints a diagnostic, whatever they return. A name that every object inherits
  (\<open>toString\<close>, \<open>constructor\<close>, ...) is found by the lookup and by the registry, so it is not
  a miss.
\<close>

theorem soft_miss:
  assumes "key \<noteq> []" and "lookup self key = Inr None"
  shows "fst (t h self (Some key) None None) = Inr (Some (Str key)) \<and>
         (vals ''count'' = Undefined \<longrightarrow>
            fst (t h self (Some key) (Some vals) None) = Inr (Some (Str key))) \<and>
         fst (get self (Some key)) = Inr None \<and>
         (js_read (formatters self) f = Inr None \<longrightarrow>
            fst (format self v f args) = Inr (Str v) \<and>
            fst (t h self (Some key) None (Some (f, args))) = Inr (Some (Str key))) \<and>
         (tree_of self (language self) = Inr None \<and>
          tree_of self (fallbackLanguage self) = Inr None \<longrightarrow> lookup self k = Inr None) \<and>
         (\<not> devMode self \<longrightarrow>
            warnings (snd (t h self (Some key) values fmt)) = warnings self \<and>
            warnings (snd (get self (Some key))) = warnings self \<and>
            warnings (snd (plural h self key vals fmt)) = warnings self \<and>
            warnings (snd (format self v f args)) = warnings self)"
proof -
  have t0: "fst (t h self (Some key) vs fm) =
              map_sum id Some (formatted (formatters self) (Str key) fm)"
    if "implicit_plural h self key vs = Inr None" for vs fm
  proof -
    have "interp h self None vs = Inr None" by (rule interp_None)
    with t_stable [OF assms(1), of h self vs fm] assms(2) that show ?thesis
      by (auto simp: finished_None)
  qed
  have t1: "fst (t h self (Some key) None None) = Inr (Some (Str key))"
    using t0 [of None None] by (simp add: implicit_plural_def formatted_def)
  have t2: "vals ''count'' = Undefined \<Longrightarrow>
            fst (t h self (Some key) (Some vals) None) = Inr (Some (Str key))"
    using t0 [of "Some vals" None] by (simp add: implicit_plural_def formatted_def)
  have t3: "js_read (formatters self) f = Inr None \<Longrightarrow>
            fst (t h self (Some key) None (Some (f, args))) = Inr (Some (Str key))"
    using t0 [of None "Some (f, args)"] by (simp add: implicit_plural_def formatted_def)
  have g: "fst (get self (Some key)) = Inr None"
    using get_stable [of self "Some key"] assms by auto
  have f: "js_read (formatters self) f = Inr None \<Longrightarrow> fst (format self v f args) = Inr (Str v)"
    using applyFormat_stable [of self "Str v" f args] by (auto simp: format_def)
  have e1: "evolves self (snd (t h self (Some key) values fmt))"
    using t_stable [OF assms(1), of h self "values" fmt] by auto
  have e2: "evolves self (snd (get self (Some key)))"
    using get_stable [of self "Some key"] by auto
  have e3: "evolves self (snd (plural h self key vals fmt))"
    using plural_pure [of h self key vals fmt] by blast
  have e4: "evolves self (snd (format self v f args))"
    using applyFormat_stable [of self "Str v" f args] by (auto simp: format_def)
  show ?thesis
    using t1 t2 t3 g f missing_scope [of self k]
      quiet_warnings [OF e1] quiet_warnings [OF e2] quiet_warnings [OF e3] quiet_warnings [OF e4]
    by blast
qed

text \<open>
  The empty key is different: \<open>t("")\<close> takes the branch of a call without key and returns
  the whole translation object.
\<close>

theorem soft_miss_counterexample:
  "lookup (mk_locl example_resources ''en'' NoScope False True) [] = Inr None \<and>
   fst (t en_host (mk_locl example_resources ''en'' NoScope False True) (Some []) None None) =
     Inr (map_of example_resources ''en'') \<and>
   map_of example_resources ''en'' \<noteq> Some (Str [])"
  by code_simp

theorem soft_miss_witness:
  "fst (t en_host (mk_locl example_resources ''en'' (Single ''nowhere'') False True)
          (Some ''no.such.key'') None None) = Inr (Some (Str ''no.such.key'')) \<and>
   fst (t en_host (mk_locl example_resources ''en'' (Single ''nowhere'') False True)
          (Some ''no.such.key'') (Some (str_bag ''name'' ''x'')) None)
     = Inr (Some (Str ''no.such.key'')) \<and>
   fst (get (mk_locl example_resources ''en'' (Single ''nowhere'') False True)
          (Some ''no.such.key'')) = Inr None \<and>
   fst (format (mk_locl example_resources ''en'' (Single ''nowhere'') False True)
          ''x'' ''shout'' None) = Inr (Str ''x'') \<and>
   fst (t en_host (mk_locl example_resources ''en'' (Single ''nowhere'') False True)
          (Some ''no.such.key'') None (Some (''shout'', None))) = Inr (Some (Str ''no.such.key'')) \<and>
   warnings (snd (t en_host (mk_locl example_resources ''en'' (Single ''nowhere'') False True)
                    (Some ''no.such.key'') (Some (count_bag 2)) None)) = [] \<and>
   warnings (snd (get (mk_locl example_resources ''en'' (Single ''nowhere'') False True)
                    (Some ''no.such.key''))) = [] \<and>
   warnings (snd (plural en_host (mk_locl example_resources ''en'' (Single ''nowhere'') False True)
                    ''no.such.key'' (str_bag ''name'' ''x'') None)) = [] \<and>
   warnings (snd (format (mk_locl example_resources ''en'' (Single ''nowhere'') False True)
                    ''x'' ''shout'' None)) = []"
proof -
  let ?L = "mk_locl example_resources ''en'' (Single ''nowhere'') False True"
  have k: "''no.such.key'' \<noteq> []" by simp
  have l: "lookup ?L ''no.such.key'' = Inr None" by code_simp
  have c: "str_bag ''name'' ''x'' ''count'' = Undefined" by (simp add: str_bag_def)
  have f: "js_read (formatters ?L) ''shout'' = Inr None"
    by (simp add: js_read_def mk_locl_def inherited_def object_prototype_names_def)
  have d: "\<not> devMode ?L" by (simp add: devMode_def mk_locl_def mk_config_def)
  have w: "warnings ?L = []" by (simp add: mk_locl_def)
  note s = soft_miss [OF k l, of en_host "str_bag ''name'' ''x''" "''shout''" "''x''" None
      "''no.such.key''" "Some (count_bag 2)" None]
  show ?thesis using s c f d w by simp
qed


subsection \<open>One instance without views: the cache is transparent\<close>

text \<open>
  Every call returns what \<open>lookup\<close> gives and leaves the trees as they are, so two instances
  that resolve alike answer every sequence of calls alike. A new instance has an empty
  cache, and its trees are the computed ones; hence an instance built with
  \<open>useCache = false\<close> answers as the instance built from the same configuration otherwise,
  as long as no view is taken.
\<close>

lemma similar_evolves:
  assumes "evolves a a'" and "evolves b b'" and "similar a b"
  shows "similar a' b'"
  using assms(3) unfolding similar_def evolves_fields [OF assms(1)] evolves_fields [OF assms(2)]
    evolves_tree [OF assms(1)] evolves_tree [OF assms(2)] .

lemma similar_lookup:
  assumes "similar a b"
  shows "lookup a k = lookup b k"
proof -
  from assms have l: "language a = language b" and f: "fallbackLanguage a = fallbackLanguage b"
    and t: "\<And>lang. tree_of a lang = tree_of b lang" by (simp_all add: similar_def)
  show ?thesis unfolding lookup_def l f t ..
qed

lemma similar_interp: "similar a b \<Longrightarrow> interp h a r vs = interp h b r vs"
  by (simp add: similar_def interp_def)

lemma similar_interpolated: "similar a b \<Longrightarrow> interpolated h a v vals = interpolated h b v vals"
  by (cases v) (simp_all add: similar_def interpolated_def)

lemma similar_implicit:
  assumes "similar a b"
  shows "implicit_plural h a k vs = implicit_plural h b k vs"
proof -
  from assms have p: "plural_lang a = plural_lang b" by (simp add: similar_def)
  show ?thesis
    unfolding implicit_plural_def p similar_interp [OF assms] similar_lookup [OF assms] ..
qed

lemma t_empty: "key = None \<or> key = Some [] \<Longrightarrow> t h self key vs fmt = get self None"
  by (auto simp: t_def)

lemma format_stable:
  "fst (format self v f args) =
     (case js_read (formatters self) f of
        Inl e \<Rightarrow> Inl e
      | Inr None \<Rightarrow> Inr (Str v)
      | Inr (Some fn) \<Rightarrow> Inr (Str (fn (Node (Str v)) args)))"
  "evolves self (snd (format self v f args))"
  using applyFormat_stable [of self "Str v" f args] by (auto simp: format_def)

lemma exec_evolves:
  "(\<forall>lang. c \<noteq> CallChangeLanguage lang) \<longrightarrow> evolves self (snd (exec h self c))"
proof (cases c)
  case (CallT key vs fmt)
  show ?thesis
  proof (cases "key = None \<or> key = Some []")
    case True
    with CallT get_stable [of self None] show ?thesis by (auto simp: t_empty)
  next
    case False
    then obtain k where "key = Some k" "k \<noteq> []" by (cases key) auto
    with CallT t_stable [of k h self vs fmt] show ?thesis by auto
  qed
next
  case (CallGet key)
  with get_stable [of self key] show ?thesis by auto
next
  case (CallPlural key vals fmt)
  with plural_pure [of h self key vals fmt] show ?thesis by (simp add: split_def)
next
  case (CallFormat v f args)
  with format_stable(2) [of self v f args] show ?thesis by (simp add: split_def)
next
  case (CallChangeLanguage lang)
  then show ?thesis by simp
qed

lemma tree_of_changeLanguage: "tree_of (changeLanguage self l) lang = tree_of self lang"
proof -
  have f: "resources (changeLanguage self l) = resources self"
    "scope (changeLanguage self l) = scope self"
    "useCache (changeLanguage self l) = useCache self"
    "cache (changeLanguage self l) = cache self"
    "getCacheKey (changeLanguage self l) = getCacheKey self"
    by (simp_all add: changeLanguage_def resources_def useCache_def getCacheKey_def fun_eq_iff)
  show ?thesis unfolding tree_of_eq f ..
qed

lemma similar_changeLanguage:
  "similar a b \<Longrightarrow> similar (changeLanguage a lang) (changeLanguage b lang)"
  unfolding similar_def tree_of_changeLanguage
  by (simp add: changeLanguage_def resources_def)

lemma exec_similar:
  assumes "similar a b"
  shows "fst (exec h a c) = fst (exec h b c) \<and> similar (snd (exec h a c)) (snd (exec h b c))"
proof (cases "\<exists>lang. c = CallChangeLanguage lang")
  case True
  then obtain lang where "c = CallChangeLanguage lang" by blast
  with similar_changeLanguage [OF assms, of lang] show ?thesis by simp
next
  case False
  then have ea: "evolves a (snd (exec h a c))" and eb: "evolves b (snd (exec h b c))"
    using exec_evolves [of c a h] exec_evolves [of c b h] by auto
  have fm: "formatters a = formatters b" and pl: "plural_lang a = plural_lang b"
    and la: "language a = language b" and tr: "\<And>lang. tree_of a lang = tree_of b lang"
    using assms by (simp_all add: similar_def)
  have g: "\<And>key. fst (get a key) = fst (get b key)"
  proof -
    fix key
    show "fst (get a key) = fst (get b key)"
      using get_stable [of a key] get_stable [of b key] la tr similar_lookup [OF assms]
      by (auto split: option.splits)
  qed
  have "fst (exec h a c) = fst (exec h b c)"
  proof (cases c)
    case (CallT key vs fmt)
    show ?thesis
    proof (cases "key = None \<or> key = Some []")
      case True
      with CallT g [of None] show ?thesis by (auto simp: t_empty)
    next
      case False
      then obtain k where k: "key = Some k" "k \<noteq> []" by (cases key) auto
      from t_stable [OF k(2), of h a vs fmt] t_stable [OF k(2), of h b vs fmt]
      show ?thesis
        unfolding CallT k(1) similar_implicit [OF assms] similar_lookup [OF assms]
          similar_interp [OF assms] fm
        by auto
    qed
  next
    case (CallGet key)
    with g [of key] show ?thesis by simp
  next
    case (CallPlural key vals fmt)
    from plural_pure [of h a key vals fmt, THEN conjunct1]
      plural_pure [of h b key vals fmt, THEN conjunct1]
    have "fst (plural h a key vals fmt) = fst (plural h b key vals fmt)"
      unfolding similar_lookup [OF assms] similar_interpolated [OF assms] fm pl
      by simp
    with CallPlural show ?thesis by (simp add: split_def)
  next
    case (CallFormat v f args)
    from format_stable(1) [of a v f args] format_stable(1) [of b v f args] fm
    have "fst (format a v f args) = fst (format b v f args)" by simp
    with CallFormat show ?thesis by (simp add: split_def)
  next
    case (CallChangeLanguage lang)
    then show ?thesis by simp
  qed
  with similar_evolves [OF ea eb assms] show ?thesis by simp
qed

lemma run_calls_similar:
  "similar a b \<Longrightarrow> run_calls h a cs = run_calls h b cs"
proof (induction cs arbitrary: a b)
  case Nil
  show ?case by simp
next
  case (Cons c cs)
  from exec_similar [OF Cons.prems, of h c] have
    r: "fst (exec h a c) = fst (exec h b c)" and
    n: "similar (snd (exec h a c)) (snd (exec h b c))"
    by auto
  from Cons.IH [OF n] r show ?case by (simp add: split_def)
qed

lemma new_locl_fields:
  assumes "new_locl defaults cfg i = Inr self"
  shows "cache self = Map.empty"
    and "cfg_resources (config self) = cfg_resources cfg"
    and "language self =
           (case isLanguage (case cfg_resources cfg of None \<Rightarrow> [] | Some r \<Rightarrow> r) (cfg_language cfg) of
              None \<Rightarrow> cfg_fallbackLanguage cfg | Some l \<Rightarrow> l)"
    and "fallbackLanguage self = cfg_fallbackLanguage cfg"
    and "scope self = cfg_scope cfg"
    and "plural_lang self = language self"
    and "formatters self =
           (if or_default True (cfg_useDefaultFormatters cfg) = Flag True
            then defaults ++ (case cfg_formatters cfg of None \<Rightarrow> Map.empty | Some f \<Rightarrow> f)
            else (case cfg_formatters cfg of None \<Rightarrow> Map.empty | Some f \<Rightarrow> f))"
proof -
  from assms obtain res where r: "cfg_resources cfg = Some res"
    by (cases "cfg_resources cfg") (simp_all add: new_locl_def)
  from assms r have fb: "cfg_fallbackLanguage cfg \<noteq> []"
    by (cases "cfg_fallbackLanguage cfg = []") (simp_all add: new_locl_def)
  from assms have self: "self = (case new_locl defaults cfg i of Inr l \<Rightarrow> l)" by simp
  show "cache self = Map.empty" "cfg_resources (config self) = cfg_resources cfg"
    "language self =
           (case isLanguage (case cfg_resources cfg of None \<Rightarrow> [] | Some r \<Rightarrow> r) (cfg_language cfg) of
              None \<Rightarrow> cfg_fallbackLanguage cfg | Some l \<Rightarrow> l)"
    "fallbackLanguage self = cfg_fallbackLanguage cfg" "scope self = cfg_scope cfg"
    "plural_lang self = language self"
    "formatters self =
           (if or_default True (cfg_useDefaultFormatters cfg) = Flag True
            then defaults ++ (case cfg_formatters cfg of None \<Rightarrow> Map.empty | Some f \<Rightarrow> f)
            else (case cfg_formatters cfg of None \<Rightarrow> Map.empty | Some f \<Rightarrow> f))"
    unfolding self by (simp_all add: new_locl_def r fb Let_def)
qed

lemma tree_of_empty_cache:
  assumes "cache self = Map.empty"
  shows "tree_of self lang = scoped_tree (resources self) (scope self) lang"
  unfolding tree_of_eq assms
  by (auto simp: scoped_tree_def split: sum.splits scope.splits)

lemma cache_transparent_without_views:
  assumes "new_locl defaults cfg i = Inr a"
    and "new_locl defaults (cfg\<lparr>cfg_useCache := Flag False\<rparr>) i = Inr b"
  shows "run_calls h a calls = run_calls h b calls"
proof -
  note fa = new_locl_fields [OF assms(1)] and fb = new_locl_fields [OF assms(2)]
  have r: "resources a = resources b" unfolding resources_def fa(2) fb(2) by simp
  have s: "scope a = scope b" unfolding fa(5) fb(5) by simp
  have "\<And>lang. tree_of a lang = tree_of b lang"
    unfolding tree_of_empty_cache [OF fa(1)] tree_of_empty_cache [OF fb(1)] r s ..
  moreover have l: "language a = language b"
    unfolding fa(3) fb(3) by (simp split: option.splits)
  moreover have "plural_lang a = plural_lang b" unfolding fa(6) fb(6) l ..
  moreover have "fallbackLanguage a = fallbackLanguage b" unfolding fa(4) fb(4) by simp
  moreover have "formatters a = formatters b" unfolding fa(7) fb(7) by simp
  ultimately have "similar a b" using r s by (simp add: similar_def)
  then show ?thesis by (rule run_calls_similar)
qed

subsection \<open>The cache shared by views\<close>

text \<open>
  C9 at a failing input. The resources have the keys \<open>a\<close>, \<open>b\<close> and \<open>a|b\<close>. A view with the
  sequence scope \<open>["a", "b"]\<close> and a view with the single scope \<open>"a|b"\<close> share the cache of
  their instance, and both scopes give the cache key \<open>en::a|b\<close>. After the first view has
  filled the cache, \<open>get("x")\<close> on the second view reads the merged tree of the first and
  returns \<open>undefined\<close>; with \<open>useCache = false\<close> the same calls return \<open>"1"\<close>.
\<close>

theorem view_cache_collision:
  "fst (view_get
          (snd (view_get (mk_locl example_resources ''en'' NoScope False True)
                  None (Multi [''a'', ''b'']) (Some ''a.y'')))
          None (Single ''a|b'') (Some ''x'')) = Inr None \<and>
   fst (view_get
          (snd (view_get (mk_locl example_resources ''en'' NoScope False False)
                  None (Multi [''a'', ''b'']) (Some ''a.y'')))
          None (Single ''a|b'') (Some ''x'')) = Inr (Some (Str ''1''))"
  by code_simp

subsection \<open>\<open>withConfig\<close> and \<open>clone\<close>\<close>

lemma withConfig_keeps_instance: "fst (snd (withConfig self lang sc n)) = self"
  by (simp add: withConfig_def split: option.splits)

lemma withConfig_fresh_views:
  assumes "cache self (withConfig_key self lang sc) = None"
  shows "withConfig self lang sc n = (View n lang sc, self, Suc n)"
  using assms by (simp add: withConfig_def)


text \<open>
  C2 at a failing input. \<open>withConfig\<close> computes the composite key and consults the cache,
  but no statement stores the new view, so two successive calls with the same override
  return two views of different identity. \<open>clone\<close> returns an instance of a new identity.
\<close>

theorem withConfig_not_cached:
  "(case withConfig (mk_locl example_resources ''en'' NoScope False True) (Some ''en'') (Single ''a'') 1 of
      (v1, self1, n1) \<Rightarrow>
        (case withConfig self1 (Some ''en'') (Single ''a'') n1 of
           (v2, self2, n2) \<Rightarrow> (v1, v2)))
   = (View 1 (Some ''en'') (Single ''a''), View 2 (Some ''en'') (Single ''a'')) \<and>
   map_sum id ident (fst (clone Map.empty (mk_locl example_resources ''en'' NoScope False True) None NoScope 1))
     = Inr 1 \<and>
   ident (mk_locl example_resources ''en'' NoScope False True) = 0"
  by code_simp



subsection \<open>Read-only views of the resources\<close>

text \<open>
  What \<open>makeReadOnly\<close> achieves: a second call for the same object returns the same view
  and allocates nothing, and every mutation attempted on a view is refused and leaves the
  store as it is.
\<close>

lemma makeReadOnly_same:
  assumes "makeReadOnly st obj = (p, st')"
  shows "makeReadOnly st' obj = (p, st')"
proof (cases "map_of (proxyCache st) obj")
  case None
  with assms have "p = length (heap st)"
    and "st' = st\<lparr>heap := heap st @ [ReadOnly obj], proxyCache := (obj, p) # proxyCache st\<rparr>"
    by (auto simp: makeReadOnly_def Let_def)
  then have "map_of (proxyCache st') obj = Some p" by simp
  then show ?thesis by (simp add: makeReadOnly_def)
next
  case (Some q)
  with assms show ?thesis by (simp add: makeReadOnly_def)
qed

lemma makeReadOnly_view:
  assumes "map_of (proxyCache st) obj = None" and "makeReadOnly st obj = (p, st')"
  shows "is_view st' p \<and> heap st' ! p = ReadOnly obj \<and> take (length (heap st)) (heap st') = heap st"
  using assms by (auto simp: makeReadOnly_def Let_def is_view_def)

lemma view_refuses: "is_view st a \<Longrightarrow> js_mutate st a m = Some (Inr False, st)"
  by (auto simp: is_view_def js_mutate_def split: cell.splits)

lemma client_ops_refused:
  "(case wrap_resources raw_store 0 of
      (w, st0) \<Rightarrow>
        (case get_all st0 w ''en'' of
           Some (Inr (Some (HRef v)), st1) \<Rightarrow>
             (case run st1 v v client_ops of
                Some (st2, cur) \<Rightarrow>
                  is_view st2 cur \<and> heap st2 ! cur = ReadOnly 2 \<and>
                  take 3 (heap st2) = heap raw_store \<and> length (heap st2) = 6
              | None \<Rightarrow> False)
         | _ \<Rightarrow> False))"
  by code_simp

text \<open>
  C1, where the code departs from it. The handler of \<open>makeReadOnly\<close> traps property reads,
  assignment, deletion, \<open>defineProperty\<close> and \<open>setPrototypeOf\<close>, and nothing else. Asked for
  the descriptor of a property, a view answers with the property of its target, so
  \<open>Object.getOwnPropertyDescriptor(tr.get(), 'nested').value\<close> is the sub-object of the
  resource tree itself and not its view; an assignment to it takes effect, and the
  translator reads the new value from then on. And when the resources are frozen, the
  view made for a sub-object is not the value the frozen property holds, so the first
  read of a language through the wrapped resources raises \<open>TypeError\<close> instead of yielding
  a view. Below: the resources \<open>{en: {greeting: 'Hello', nested: {a: 'x'}}}\<close> at addresses
  0, 1 and 2; the constructor wraps them, \<open>get()\<close> reads the language, and a client takes
  \<open>nested\<close> from its descriptor and assigns to \<open>a\<close>.
\<close>

theorem descriptor_leaks_raw_object:
  "(case wrap_resources raw_store 0 of
      (w, st0) \<Rightarrow>
        (case get_all st0 w ''en'' of
           Some (Inr (Some (HRef v)), st1) \<Rightarrow>
             is_view st1 v \<and> heap st1 ! v = ReadOnly 1 \<and>
             heap st1 ! 2 = Plain [(''a'', HStr ''x'')] False False \<and>
             (case run st1 v v [Descriptor ''nested'', Attempt (Assign ''a'' (HStr ''changed''))] of
                Some (st2, cur) \<Rightarrow>
                  cur = 2 \<and> \<not> is_view st2 cur \<and>
                  heap st2 ! 2 = Plain [(''a'', HStr ''changed'')] False False \<and>
                  (case run st2 v v [Read ''nested''] of
                     Some (st3, n) \<Rightarrow>
                       is_view st3 n \<and> heap st3 ! n = ReadOnly 2 \<and>
                       map_option fst (js_get st3 n ''a'') = Some (Inr (Some (HStr ''changed'')))
                   | None \<Rightarrow> False)
              | None \<Rightarrow> False)
         | _ \<Rightarrow> False)) \<and>
   (case wrap_resources frozen_store 0 of
      (w, st0) \<Rightarrow> map_option fst (get_all st0 w ''en'') = Some (Inl TypeError))"
  by code_simp


subsection \<open>The merge of a sequence scope\<close>




















subsection \<open>Select expressions\<close>

lemma split_on_hd: "\<exists>p ps. split_on c s = p # ps \<and> prefix p s"
proof (induction s)
  case Nil
  show ?case by simp
next
  case (Cons y ys)
  then obtain p ps where "split_on c ys = p # ps" "prefix p ys" by blast
  then show ?case by (cases "y = c") auto
qed

lemma split_on_parts: "x \<in> set (split_on c s) \<Longrightarrow> \<exists>a b. s = a @ x @ b"
proof (induction s arbitrary: x)
  case Nil
  then show ?case by simp
next
  case (Cons y ys)
  obtain p ps where sp: "split_on c ys = p # ps" and pre: "prefix p ys"
    using split_on_hd by blast
  have tail: "\<And>z. z \<in> set (split_on c ys) \<Longrightarrow> \<exists>a b. y # ys = a @ z @ b"
  proof -
    fix z assume "z \<in> set (split_on c ys)"
    from Cons.IH [OF this] obtain a b where "ys = a @ z @ b" by blast
    then have "y # ys = (y # a) @ z @ b" by simp
    then show "\<exists>a b. y # ys = a @ z @ b" by blast
  qed
  show ?case
  proof (cases "y = c")
    case True
    with Cons.prems have "x = [] \<or> x \<in> set (split_on c ys)" by simp
    then show ?thesis
    proof
      assume "x = []"
      then have "y # ys = [] @ x @ (y # ys)" by simp
      then show ?thesis by blast
    next
      assume "x \<in> set (split_on c ys)"
      then show ?thesis by (rule tail)
    qed
  next
    case False
    with sp Cons.prems have "x = y # p \<or> x \<in> set ps" by simp
    then show ?thesis
    proof
      assume x: "x = y # p"
      from pre obtain b where "ys = p @ b" by (auto simp: prefix_def)
      then have "y # ys = [] @ x @ b" using x by simp
      then show ?thesis by blast
    next
      assume "x \<in> set ps"
      then have "x \<in> set (split_on c ys)" using sp by simp
      then show ?thesis by (rule tail)
    qed
  qed
qed

lemma trim_part: "\<exists>a b. x = a @ trim x @ b"
proof -
  let ?y = "dropWhile is_space x"
  let ?r = "rev ?y"
  have 1: "x = takeWhile is_space x @ ?y" by simp
  have "?r = takeWhile is_space ?r @ dropWhile is_space ?r" by simp
  then have "?y = rev (dropWhile is_space ?r) @ rev (takeWhile is_space ?r)"
    by (metis rev_append rev_rev_ident)
  then have "?y = trim x @ rev (takeWhile is_space ?r)" by (simp add: trim_def)
  with 1 have "x = takeWhile is_space x @ trim x @ rev (takeWhile is_space ?r)" by simp
  then show ?thesis by blast
qed

lemma str_includes_part: "str_includes (a @ pat @ b) pat"
  using index_of_bound [of pat a b] by (auto simp: str_includes_def)

lemma select_tag_included:
  assumes "map trim (split_on c s) = field # tag # rest"
  shows "str_includes s tag"
proof -
  obtain x where x: "x \<in> set (split_on c s)" and t: "tag = trim x"
  proof -
    have "tag \<in> set (map trim (split_on c s))" using assms by simp
    then show ?thesis using that by auto
  qed
  from split_on_parts [OF x] obtain a b where s: "s = a @ x @ b" by blast
  from trim_part [of x] obtain a' b' where "x = a' @ tag @ b'" using t by blast
  with s have "s = (a @ a') @ tag @ (b' @ b)" by simp
  then show ?thesis using str_includes_part by metis
qed

lemma space_not_word: "is_space c \<Longrightarrow> \<not> is_word c"
  by (auto simp: is_space_def is_word_def Let_def)

lemma brace_not_word: "\<not> is_word CHR ''{''"
  by (simp add: is_word_def)

lemma brace_not_space: "\<not> is_space CHR ''{''"
  by (simp add: is_space_def)

text \<open>The pattern matches at the start of a string exactly when a case stands there.\<close>

lemma match_case_at_iff:
  "match_case_at s = Some (k, tx, r) \<longleftrightarrow> (\<exists>sp. case_at s k sp tx r)"
proof
  assume m: "match_case_at s = Some (k, tx, r)"
  let ?sp = "takeWhile is_space (dropWhile is_word s)"
  from m have k: "k = takeWhile is_word s" "k \<noteq> []"
    by (auto simp: match_case_at_def Let_def split: if_splits list.splits)
  from m obtain r1 e where
    r1: "dropWhile is_space (dropWhile is_word s) = CHR ''{'' # r1" and
    r: "dropWhile (\<lambda>c. c \<noteq> CHR ''}'') r1 = e # r" and
    t: "tx = takeWhile (\<lambda>c. c \<noteq> CHR ''}'') r1"
    by (auto simp: match_case_at_def Let_def split: if_splits list.splits)
  have "\<not> (e \<noteq> CHR ''}'')" using hd_dropWhile [of "\<lambda>c. c \<noteq> CHR ''}''" r1] r by simp
  then have e: "e = CHR ''}''" by simp
  have "r1 = tx @ dropWhile (\<lambda>c. c \<noteq> CHR ''}'') r1" unfolding t by simp
  then have r1': "r1 = tx @ CHR ''}'' # r" using r e by simp
  have "s = k @ dropWhile is_word s" unfolding k(1) by simp
  also have "dropWhile is_word s = ?sp @ dropWhile is_space (dropWhile is_word s)" by simp
  finally have s: "s = k @ ?sp @ CHR ''{'' # tx @ CHR ''}'' # r" using r1 r1' by simp
  have "list_all is_word k" unfolding k(1) list_all_iff by (auto dest: set_takeWhileD)
  moreover have "list_all is_space ?sp" unfolding list_all_iff by (auto dest: set_takeWhileD)
  moreover have "CHR ''}'' \<notin> set tx" unfolding t by (auto dest: set_takeWhileD)
  ultimately have "case_at s k ?sp tx r" using s k(2) by (simp add: case_at_def)
  then show "\<exists>sp. case_at s k sp tx r" by blast
next
  assume "\<exists>sp. case_at s k sp tx r"
  then obtain sp where s: "s = k @ sp @ CHR ''{'' # tx @ CHR ''}'' # r" and k: "k \<noteq> []"
    and kw: "\<forall>c\<in>set k. is_word c" and sw: "\<forall>c\<in>set sp. is_space c"
    and t: "\<forall>c\<in>set tx. c \<noteq> CHR ''}''"
    by (auto simp: case_at_def list_all_iff)
  have nw: "\<not> is_word (hd (sp @ CHR ''{'' # tx @ CHR ''}'' # r))"
    using sw space_not_word brace_not_word by (cases sp) auto
  have tw: "takeWhile is_word s = k"
    unfolding s using kw nw by (cases "sp @ CHR ''{'' # tx @ CHR ''}'' # r") (simp_all add: takeWhile_append2)
  have dw: "dropWhile is_word s = sp @ CHR ''{'' # tx @ CHR ''}'' # r"
    unfolding s using kw nw by (cases "sp @ CHR ''{'' # tx @ CHR ''}'' # r") (simp_all add: dropWhile_append2)
  have sp: "dropWhile is_space (sp @ CHR ''{'' # tx @ CHR ''}'' # r) = CHR ''{'' # tx @ CHR ''}'' # r"
    using sw brace_not_space by (simp add: dropWhile_append2)
  have t1: "takeWhile (\<lambda>c. c \<noteq> CHR ''}'') (tx @ CHR ''}'' # r) = tx"
    using t by (simp add: takeWhile_append2)
  have t2: "dropWhile (\<lambda>c. c \<noteq> CHR ''}'') (tx @ CHR ''}'' # r) = CHR ''}'' # r"
    using t by (simp add: dropWhile_append2)
  show "match_case_at s = Some (k, tx, r)"
    unfolding match_case_at_def tw dw sp using k by (simp add: t1 t2)
qed

lemma starts_case_iff: "starts_case s \<longleftrightarrow> match_case_at s \<noteq> None"
proof
  assume "starts_case s"
  then obtain k sp tx r where "case_at s k sp tx r" by (auto simp: starts_case_def)
  then have "match_case_at s = Some (k, tx, r)" using match_case_at_iff by blast
  then show "match_case_at s \<noteq> None" by simp
next
  assume "match_case_at s \<noteq> None"
  then obtain k tx r where "match_case_at s = Some (k, tx, r)" by (cases "match_case_at s") auto
  then show "starts_case s" using match_case_at_iff by (auto simp: starts_case_def)
qed

lemma not_starts_case: "\<not> starts_case s \<longleftrightarrow> match_case_at s = None"
  using starts_case_iff [of s] by (cases "match_case_at s") simp_all

lemma match_case_at_Nil: "match_case_at [] = None"
  by (simp add: match_case_at_def)

text \<open>\<open>exec\<close> finds nothing exactly when no case starts anywhere, and otherwise the leftmost case.\<close>

lemma regex_exec_None: "regex_exec s = None \<longleftrightarrow> (\<forall>u. suffix u s \<longrightarrow> \<not> starts_case u)"
proof (induction s)
  case Nil
  show ?case by (simp add: not_starts_case match_case_at_Nil)
next
  case (Cons c cs)
  have "(\<forall>u. suffix u (c # cs) \<longrightarrow> \<not> starts_case u) \<longleftrightarrow>
        \<not> starts_case (c # cs) \<and> (\<forall>u. suffix u cs \<longrightarrow> \<not> starts_case u)"
    by (auto simp: suffix_Cons)
  with Cons show ?case by (auto simp: not_starts_case split: option.splits)
qed

lemma regex_exec_first:
  assumes "match_case_at c = Some m"
    and "\<forall>u. u \<noteq> [] \<and> suffix u pre \<longrightarrow> \<not> starts_case (u @ c)"
  shows "regex_exec (pre @ c) = Some m"
  using assms(2)
proof (induction pre)
  case Nil
  from assms(1) obtain x xs where "c = x # xs" by (cases c) (auto simp: match_case_at_Nil)
  with assms(1) show ?case by simp
next
  case (Cons x pre)
  have "x # pre \<noteq> [] \<and> suffix (x # pre) (x # pre)" by simp
  with Cons.prems have "\<not> starts_case ((x # pre) @ c)" by blast
  then have n: "match_case_at (x # pre @ c) = None" by (simp add: not_starts_case)
  have "\<forall>u. u \<noteq> [] \<and> suffix u pre \<longrightarrow> \<not> starts_case (u @ c)"
    using Cons.prems by (auto simp: suffix_Cons)
  from Cons.IH [OF this] n show ?case by simp
qed

lemma regex_exec_Some:
  "regex_exec s = Some m \<Longrightarrow>
   \<exists>pre c. s = pre @ c \<and> match_case_at c = Some m \<and>
           (\<forall>u. u \<noteq> [] \<and> suffix u pre \<longrightarrow> \<not> starts_case (u @ c))"
proof (induction s)
  case Nil
  then show ?case by simp
next
  case (Cons x xs)
  show ?case
  proof (cases "match_case_at (x # xs)")
    case (Some m')
    with Cons.prems have "match_case_at (x # xs) = Some m" by simp
    then have "x # xs = [] @ (x # xs) \<and> match_case_at (x # xs) = Some m \<and>
           (\<forall>u. u \<noteq> [] \<and> suffix u [] \<longrightarrow> \<not> starts_case (u @ (x # xs)))"
      by simp
    then show ?thesis by blast
  next
    case None
    with Cons.prems have "regex_exec xs = Some m" by simp
    from Cons.IH [OF this] obtain pre c where p: "xs = pre @ c" "match_case_at c = Some m"
      "\<forall>u. u \<noteq> [] \<and> suffix u pre \<longrightarrow> \<not> starts_case (u @ c)" by blast
    have "\<forall>u. u \<noteq> [] \<and> suffix u (x # pre) \<longrightarrow> \<not> starts_case (u @ c)"
    proof (intro allI impI)
      fix u assume u: "u \<noteq> [] \<and> suffix u (x # pre)"
      then have "u = x # pre \<or> suffix u pre" by (auto simp: suffix_Cons)
      then show "\<not> starts_case (u @ c)"
      proof
        assume "u = x # pre"
        with None p(1) show ?thesis by (simp add: not_starts_case)
      next
        assume "suffix u pre"
        with u p(3) show ?thesis by blast
      qed
    qed
    moreover have "x # xs = (x # pre) @ c" using p(1) by simp
    ultimately show ?thesis using p(2) by blast
  qed
qed

text \<open>
  C8, as the code has it. The inner text of a token is split on every comma and each part is
  trimmed. When the parts are a field, the type tag \<open>select\<close> and further parts, the token
  is a select expression (its inner text then contains \<open>select\<close>): the field is read from
  the value bag and stringified, \<open>"other"\<close> standing for an absent field; the further parts
  are joined with single spaces and scanned for cases; the replacement is the text of the
  case of that name, else the text of the case \<open>other\<close>, else the empty string, unless the
  name is one that every object inherits and no case has it. The scan takes the leftmost
  case (a name of word characters, white space, and a text in braces without a closing
  brace), stores its trimmed text under its name, a later case overriding an earlier one
  of the same name and the name \<open>__proto__\<close> storing nothing, and goes on behind the case;
  it ends when no case starts anywhere in the rest.
\<close>

theorem select_token:
  "(map trim (split_on CHR '','' (inner tok)) = field # ''select'' # rest \<longrightarrow>
      token_replacement h fmts lang vals tok =
        and_then (bag_get vals field)
          (\<lambda>x. and_then (to_string h (case x of Undefined \<Rightarrow> Node (Str ''other'') | _ \<Rightarrow> x))
                 (select_text (case_loop (join_with '' '' rest) Map.empty)))) \<and>
   (caseMap v = Some tx \<longrightarrow> select_text caseMap v = Inr tx) \<and>
   (caseMap v = None \<and> \<not> inherited v \<longrightarrow>
      select_text caseMap v = Inr (case caseMap ''other'' of Some tx \<Rightarrow> tx | None \<Rightarrow> [])) \<and>
   ((\<forall>u. suffix u s \<longrightarrow> \<not> starts_case u) \<longrightarrow> case_loop s m = m) \<and>
   (case_at c k sp tx r \<and> (\<forall>u. u \<noteq> [] \<and> suffix u pre \<longrightarrow> \<not> starts_case (u @ c)) \<longrightarrow>
      case_loop (pre @ c) m = case_loop r (case_store k (trim tx) m)) \<and>
   ((\<forall>u. suffix u s \<longrightarrow> \<not> starts_case u) \<or>
    (\<exists>pre c k sp tx r. s = pre @ c \<and> case_at c k sp tx r \<and>
        (\<forall>u. u \<noteq> [] \<and> suffix u pre \<longrightarrow> \<not> starts_case (u @ c))))"
proof (intro conjI impI)
  assume a: "map trim (split_on CHR '','' (inner tok)) = field # ''select'' # rest"
  from select_tag_included [OF a] have "str_includes (inner tok) ''select''" .
  then show "token_replacement h fmts lang vals tok =
        and_then (bag_get vals field)
          (\<lambda>x. and_then (to_string h (case x of Undefined \<Rightarrow> Node (Str ''other'') | _ \<Rightarrow> x))
                 (select_text (case_loop (join_with '' '' rest) Map.empty)))"
    using a by (simp add: token_replacement_def select_replacement_def and_then_def)
next
  assume "caseMap v = Some tx"
  then show "select_text caseMap v = Inr tx" by (simp add: select_text_def js_read_def)
next
  assume "caseMap v = None \<and> \<not> inherited v"
  then show "select_text caseMap v = Inr (case caseMap ''other'' of Some tx \<Rightarrow> tx | None \<Rightarrow> [])"
    by (simp add: select_text_def js_read_def split: option.splits)
next
  assume "\<forall>u. suffix u s \<longrightarrow> \<not> starts_case u"
  then have "regex_exec s = None" by (simp add: regex_exec_None)
  then show "case_loop s m = m" by (simp add: case_loop.simps)
next
  assume a: "case_at c k sp tx r \<and> (\<forall>u. u \<noteq> [] \<and> suffix u pre \<longrightarrow> \<not> starts_case (u @ c))"
  then have "match_case_at c = Some (k, tx, r)" using match_case_at_iff by blast
  from regex_exec_first [OF this] a have "regex_exec (pre @ c) = Some (k, tx, r)" by blast
  then show "case_loop (pre @ c) m = case_loop r (case_store k (trim tx) m)"
    by (subst case_loop.simps) simp
next
  show "(\<forall>u. suffix u s \<longrightarrow> \<not> starts_case u) \<or>
    (\<exists>pre c k sp tx r. s = pre @ c \<and> case_at c k sp tx r \<and>
        (\<forall>u. u \<noteq> [] \<and> suffix u pre \<longrightarrow> \<not> starts_case (u @ c)))"
  proof (cases "regex_exec s")
    case None
    then show ?thesis by (simp add: regex_exec_None)
  next
    case (Some m)
    obtain k tx r where m: "m = (k, tx, r)" by (cases m)
    from regex_exec_Some [OF Some] obtain pre c where p: "s = pre @ c"
      "match_case_at c = Some (k, tx, r)"
      "\<forall>u. u \<noteq> [] \<and> suffix u pre \<longrightarrow> \<not> starts_case (u @ c)"
      unfolding m by blast
    from p(2) obtain sp where "case_at c k sp tx r" using match_case_at_iff by blast
    with p(1,3) show ?thesis by blast
  qed
qed

text \<open>
  A comma inside a case text is a separator like any other, so the text \<open>x, y\<close> comes out
  as \<open>x y\<close>. A plain token whose name contains \<open>select\<close> has no type tag and is replaced
  by the empty string.
\<close>

theorem select_token_counterexample:
  "interpolate en_host Map.empty ''en'' (Some (Str ''{g, select, m {x, y} other {z}}''))
     (Some (str_bag ''g'' ''m'')) = Inr (Some (Str ''x y'')) \<and>
   interpolate en_host Map.empty ''en'' (Some (Str ''You chose {selected}!''))
     (Some (str_bag ''selected'' ''tea'')) = Inr (Some (Str ''You chose !''))"
  by code_simp

theorem select_token_witness:
  "token_replacement en_host Map.empty ''en'' (str_bag ''gender'' ''female'')
     (mk_token ''{gender, select, male {He} female {She} other {They}}'') = Inr ''She'' \<and>
   token_replacement en_host Map.empty ''en'' (str_bag ''gender'' ''unknown'')
     (mk_token ''{gender, select, male {He} female {She} other {They}}'') = Inr ''They'' \<and>
   token_replacement en_host Map.empty ''en'' (str_bag ''name'' ''x'')
     (mk_token ''{gender, select, male {He} female {She} other {They}}'') = Inr ''They'' \<and>
   case_at ''male  { He }, x'' ''male'' ''  '' '' He '' '', x'' \<and>
   case_loop ''- male  { He }, x'' Map.empty ''male'' = Some ''He'' \<and>
   case_loop ''no {case here'' Map.empty ''no'' = None"
proof -
  let ?tok = "mk_token ''{gender, select, male {He} female {She} other {They}}''"
  have p: "map trim (split_on CHR '','' (inner ?tok)) =
             ''gender'' # ''select'' # [''male {He} female {She} other {They}'']"
    by code_simp
  have r: "token_replacement en_host Map.empty ''en'' vals ?tok =
        and_then (bag_get vals ''gender'')
          (\<lambda>x. and_then (to_string en_host (case x of Undefined \<Rightarrow> Node (Str ''other'') | _ \<Rightarrow> x))
                 (select_text (case_loop (join_with '' '' [''male {He} female {She} other {They}''])
                    Map.empty)))"
    for vals :: "(int, nat) bag"
    using select_token [of ?tok "''gender''" "[''male {He} female {She} other {They}'']" en_host
        Map.empty "''en''" vals, THEN conjunct1] p by (rule mp)
  have 1: "token_replacement en_host Map.empty ''en'' (str_bag ''gender'' ''female'') ?tok = Inr ''She''"
    unfolding r by code_simp
  have 2: "token_replacement en_host Map.empty ''en'' (str_bag ''gender'' ''unknown'') ?tok = Inr ''They''"
    unfolding r by code_simp
  have 3: "token_replacement en_host Map.empty ''en'' (str_bag ''name'' ''x'') ?tok = Inr ''They''"
    unfolding r by code_simp
  have c: "case_at ''male  { He }, x'' ''male'' ''  '' '' He '' '', x''"
    unfolding case_at_def by (intro conjI) (simp, simp, code_simp, code_simp, simp)
  have n: "\<forall>u. u \<noteq> [] \<and> suffix u ''- '' \<longrightarrow> \<not> starts_case (u @ ''male  { He }, x'')"
  proof (intro allI impI)
    fix u :: string assume "u \<noteq> [] \<and> suffix u ''- ''"
    then have "u = ''- '' \<or> u = '' ''" by (auto simp: suffix_Cons)
    moreover have "match_case_at (''- '' @ ''male  { He }, x'') = None" by code_simp
    moreover have "match_case_at ('' '' @ ''male  { He }, x'') = None" by code_simp
    ultimately show "\<not> starts_case (u @ ''male  { He }, x'')" by (auto simp: not_starts_case)
  qed
  from c n have cn: "case_at ''male  { He }, x'' ''male'' ''  '' '' He '' '', x'' \<and>
     (\<forall>u. u \<noteq> [] \<and> suffix u ''- '' \<longrightarrow> \<not> starts_case (u @ ''male  { He }, x''))" by (rule conjI)
  have "case_loop (''- '' @ ''male  { He }, x'') Map.empty =
          case_loop '', x'' (case_store ''male'' (trim '' He '') Map.empty)"
    using select_token [where c = "''male  { He }, x''" and k = "''male''" and sp = "''  ''"
        and tx = "'' He ''" and r = "'', x''" and pre = "''- ''" and m = Map.empty,
      THEN conjunct2, THEN conjunct2, THEN conjunct2, THEN conjunct2, THEN conjunct1] cn
    by (rule mp)
  moreover have "case_loop '', x'' (case_store ''male'' (trim '' He '') Map.empty) ''male'' = Some ''He''"
    by code_simp
  ultimately have 4: "case_loop ''- male  { He }, x'' Map.empty ''male'' = Some ''He''" by simp
  have "regex_exec ''no {case here'' = None" by code_simp
  then have q: "\<forall>u. suffix u ''no {case here'' \<longrightarrow> \<not> starts_case u"
    by (rule regex_exec_None [THEN iffD1])
  have "case_loop ''no {case here'' Map.empty = Map.empty"
    using select_token [where s = "''no {case here''" and m = Map.empty, THEN conjunct2, THEN conjunct2, THEN conjunct2, THEN conjunct1] q
    by (rule mp)
  then have 5: "case_loop ''no {case here'' Map.empty ''no'' = None" by simp
  show ?thesis using 1 2 3 c 4 5 by (intro conjI)
qed


end
